theory Spec2Isabelle
  imports Complex_Main
begin

section \<open>Configuration constants of game.py\<close>

definition FLOOR :: int where "FLOOR = 730"
definition GAP :: int where "GAP = 200"
definition VEL :: int where "VEL = 5"
definition MAX_ROTATION :: int where "MAX_ROTATION = 25"
definition ROT_VEL :: int where "ROT_VEL = 20"
definition ANIMATION_TIME :: nat where "ANIMATION_TIME = 5"

section \<open>Image assets\<close>

text \<open>
  The sprites are loaded from files that are not part of the source, so everything the
  program reads from them is a parameter: the opaque pixels of the three bird frames
  and of the two pipe pieces (what \<^verbatim>\<open>pygame.mask.from_surface\<close> returns), the height
  of each bird frame, and the width and height of the pipe image. A mask is the list of
  the coordinates of its set bits.
\<close>

type_synonym mask = "(int \<times> int) list"

record assets =
  IMGS_mask :: "nat \<Rightarrow> mask"
  IMGS_height :: "nat \<Rightarrow> int"
  PIPE_TOP_mask :: mask
  PIPE_BOTTOM_mask :: mask
  PIPE_width :: int
  PIPE_height :: int

text \<open>
  \<^verbatim>\<open>Mask.overlap(other, offset)\<close>: the first set bit of the mask that meets a set bit
  of \<open>other\<close> placed at \<open>offset\<close>, or None.
\<close>

definition overlap :: "mask \<Rightarrow> mask \<Rightarrow> int \<times> int \<Rightarrow> (int \<times> int) option" where
  "overlap m other off =
     find (\<lambda>(px, py). (px - fst off, py - snd off) \<in> set other) m"

text \<open>Python's \<^verbatim>\<open>round\<close> of a float to an integer rounds halves to the even neighbour.\<close>

definition py_round :: "real \<Rightarrow> int" where
  "py_round v =
     (let f = \<lfloor>v\<rfloor>; d = v - of_int f
      in if d < 1 / 2 then f else if 1 / 2 < d then f + 1
         else if even f then f else f + 1)"

section \<open>Floating-point numbers\<close>

text \<open>
  A genome's fitness is a Python float, an IEEE double, from the first \<^verbatim>\<open>+= 0.1\<close> on
  (the integer 0 it starts with has the same value as the float 0.0). A float is
  modelled by its value, a real, and every operation on floats rounds its exact result
  to the nearest double, halves to the even significand, as the hardware does:
  \<open>to_double\<close> scales by the unit in the last place of the 53-bit significand,
  rounds to an integer and scales back. \<open>expo x\<close> is the binary exponent of \<open>x\<close>,
  the \<open>e\<close> with \<open>2 ^ e \<le> \<bar>x\<bar> < 2 ^ (e + 1)\<close>; below \<open>2 ^ - 1022\<close> the unit stays
  that of the subnormal numbers. An overflow to infinity, which needs a value above
  \<open>1.7e308\<close>, is not modelled.
\<close>

definition pow2 :: "int \<Rightarrow> real" where
  "pow2 k = (if 0 \<le> k then 2 ^ nat k else 1 / 2 ^ nat (- k))"

fun floor_log2 :: "nat \<Rightarrow> nat" where
  "floor_log2 n = (if n < 2 then 0 else Suc (floor_log2 (n div 2)))"

declare floor_log2.simps [simp del]

definition expo :: "real \<Rightarrow> int" where
  "expo x =
     (let a = \<bar>x\<bar>
      in if 1 \<le> a then int (floor_log2 (nat \<lfloor>a\<rfloor>))
         else - int (Suc (floor_log2 (nat (\<lceil>1 / a\<rceil> - 1)))))"

definition to_double :: "real \<Rightarrow> real" where
  "to_double x =
     (if x = 0 then 0
      else (let u = pow2 (max (expo x) (- 1022) - 52)
            in of_int (py_round (x / u)) * u))"

definition fl_add :: "real \<Rightarrow> real \<Rightarrow> real" where
  "fl_add a b = to_double (a + b)"

definition fl_sub :: "real \<Rightarrow> real \<Rightarrow> real" where
  "fl_sub a b = to_double (a - b)"

section \<open>class Bird\<close>

text \<open>
  The vertical position and the velocity are Python numbers that take the values
  350, -10.5 and sums of multiples of 0.5; they are modelled as reals. The current image
  \<open>img\<close> is the index of the frame in \<^verbatim>\<open>IMGS\<close>.
\<close>

record bird =
  bird_x :: int
  bird_y :: real
  tilt :: int
  tick_count :: nat
  vel :: real
  bird_height :: real
  img_count :: nat
  img :: nat

definition Bird_init :: "int \<Rightarrow> real \<Rightarrow> bird" where
  "Bird_init x0 y0 =
     \<lparr>bird_x = x0, bird_y = y0, tilt = 0, tick_count = 0, vel = 0,
      bird_height = y0, img_count = 0, img = 0\<rparr>"

definition Bird_jump :: "bird \<Rightarrow> bird" where
  "Bird_jump b = b\<lparr>vel := - 21 / 2, tick_count := 0, bird_height := bird_y b\<rparr>"

text \<open>The displacement \<^verbatim>\<open>Bird.move\<close> adds to the vertical position, after both clamps.\<close>

definition displacement :: "bird \<Rightarrow> real" where
  "displacement b =
     (let t = real (tick_count b + 1);
          d = vel b * t + 3 / 2 * t ^ 2;
          d = (if d \<ge> 16 then 16 else d)
      in if d < 0 then d - 2 else d)"

definition Bird_move :: "bird \<Rightarrow> bird" where
  "Bird_move b =
     (let d = displacement b;
          y' = bird_y b + d;
          tilt' =
            (if d < 0 \<or> y' < bird_height b + 50
             then (if tilt b < MAX_ROTATION then MAX_ROTATION else tilt b)
             else (if tilt b > - 90 then tilt b - ROT_VEL else tilt b))
      in b\<lparr>tick_count := tick_count b + 1, bird_y := y', tilt := tilt'\<rparr>)"

text \<open>The state that \<^verbatim>\<open>Bird.draw\<close> changes: the frame counter and the current image.\<close>

definition Bird_draw :: "bird \<Rightarrow> bird" where
  "Bird_draw b =
     (let c = img_count b + 1;
          (i, c) =
            (if c < ANIMATION_TIME then (0, c)
             else if c < ANIMATION_TIME * 2 then (1, c)
             else if c < ANIMATION_TIME * 3 then (2, c)
             else if c < ANIMATION_TIME * 4 then (1, c)
             else if c = ANIMATION_TIME * 4 + 1 then (0, 0)
             else (img b, c));
          (i, c) = (if tilt b \<le> - 80 then (1, ANIMATION_TIME * 2) else (i, c))
      in b\<lparr>img_count := c, img := i\<rparr>)"

definition get_mask :: "assets \<Rightarrow> bird \<Rightarrow> mask" where
  "get_mask A b = IMGS_mask A (img b)"

section \<open>class Pipe\<close>

record pipe =
  pipe_x :: int
  pipe_height :: int
  pipe_top :: int
  pipe_bottom :: int
  passed :: bool

text \<open>
  \<open>r\<close> is the value that \<^verbatim>\<open>random.randrange(50, 450)\<close> returns, an integer with
  \<open>50 \<le> r < 450\<close>.
\<close>

definition set_height :: "assets \<Rightarrow> int \<Rightarrow> pipe \<Rightarrow> pipe" where
  "set_height A r p =
     p\<lparr>pipe_height := r, pipe_top := r - PIPE_height A, pipe_bottom := r + GAP\<rparr>"

definition Pipe_init :: "assets \<Rightarrow> int \<Rightarrow> int \<Rightarrow> pipe" where
  "Pipe_init A x0 r =
     set_height A r
       \<lparr>pipe_x = x0, pipe_height = 0, pipe_top = 0, pipe_bottom = 0, passed = False\<rparr>"

definition Pipe_move :: "pipe \<Rightarrow> pipe" where
  "Pipe_move p = p\<lparr>pipe_x := pipe_x p - VEL\<rparr>"

definition collide :: "assets \<Rightarrow> pipe \<Rightarrow> bird \<Rightarrow> bool" where
  "collide A p b =
     (let bird_mask = get_mask A b;
          top_mask = PIPE_TOP_mask A;
          bottom_mask = PIPE_BOTTOM_mask A;
          top_offset = (pipe_x p - bird_x b, pipe_top p - py_round (bird_y b));
          bottom_offset = (pipe_x p - bird_x b, pipe_bottom p - py_round (bird_y b));
          t_point = overlap bird_mask top_mask top_offset;
          b_point = overlap bird_mask bottom_mask bottom_offset
      in t_point \<noteq> None \<or> b_point \<noteq> None)"

section \<open>eval_genomes\<close>

text \<open>
  A network is the function from the three inputs to the first output of
  \<^verbatim>\<open>activate\<close>. A genome is an object whose fitness the loop mutates in place: the
  list \<open>ge\<close> holds references (numbers) and \<open>fitness\<close> is the store they point into,
  so the fitness of a genome stays readable after it is popped from \<open>ge\<close>. The
  fitness is a float; its updates are the rounded operations \<open>fl_add\<close> and \<open>fl_sub\<close>.
  The three lists \<open>birds\<close>, \<open>nets\<close> and \<open>ge\<close> are filled together.
\<close>

type_synonym net = "real \<times> real \<times> real \<Rightarrow> real"

record state =
  birds :: "bird list"
  nets :: "net list"
  ge :: "nat list"
  fitness :: "nat \<Rightarrow> real"
  pipes :: "pipe list"
  score :: nat

definition init_state :: "assets \<Rightarrow> int \<Rightarrow> (nat \<times> net) list \<Rightarrow> state" where
  "init_state A r genomes =
     \<lparr>birds = map (\<lambda>_. Bird_init 230 350) genomes,
      nets = map snd genomes,
      ge = map fst genomes,
      fitness = (\<lambda>_. 0),
      pipes = [Pipe_init A 600 r],
      score = 0\<rparr>"

text \<open>The index of the pipe the networks look at; evaluated only when \<open>bs\<close> is not empty.\<close>

definition pipe_ind :: "assets \<Rightarrow> bird list \<Rightarrow> pipe list \<Rightarrow> nat" where
  "pipe_ind A bs ps =
     (if length ps > 1 \<and> bird_x (bs ! 0) > pipe_x (ps ! 0) + PIPE_width A then 1 else 0)"

definition observation :: "bird \<Rightarrow> pipe \<Rightarrow> real \<times> real \<times> real" where
  "observation b p =
     (bird_y b, \<bar>bird_y b - of_int (pipe_height p)\<bar>, \<bar>bird_y b - of_int (pipe_bottom p)\<bar>)"

text \<open>What the first loop does to one bird: move, ask the network, jump or not.\<close>

definition move_and_decide :: "net \<Rightarrow> pipe \<Rightarrow> bird \<Rightarrow> bird" where
  "move_and_decide n target b =
     (let b1 = Bird_move b;
          output = n (observation b1 target)
      in if output > 1 / 2 then Bird_jump b1 else b1)"

text \<open>
  The body of the first loop at index \<open>x\<close>, and the loop over all indices. The float
  literal \<^verbatim>\<open>0.1\<close> is the double nearest to one tenth.
\<close>

definition agent_body :: "pipe \<Rightarrow> nat \<Rightarrow> state \<Rightarrow> state" where
  "agent_body target x st =
     st\<lparr>birds := (birds st)[x := move_and_decide (nets st ! x) target (birds st ! x)],
        fitness := (fitness st)(ge st ! x := fl_add (fitness st (ge st ! x)) (to_double (1 / 10)))\<rparr>"

definition agents_loop :: "pipe \<Rightarrow> state \<Rightarrow> state" where
  "agents_loop target st = fold (agent_body target) [0..<length (birds st)] st"

text \<open>\<^verbatim>\<open>list.pop(x)\<close>, called with \<open>x\<close> in range only.\<close>

definition pop :: "nat \<Rightarrow> 'a list \<Rightarrow> 'a list" where
  "pop x xs = take x xs @ drop (Suc x) xs"

text \<open>The four statements that both scans run when the agent at index \<open>x\<close> dies.\<close>

definition penalise_and_pop :: "nat \<Rightarrow> state \<Rightarrow> state" where
  "penalise_and_pop x st =
     st\<lparr>fitness := (fitness st)(ge st ! x := fl_sub (fitness st (ge st ! x)) 1),
        birds := pop x (birds st),
        nets := pop x (nets st),
        ge := pop x (ge st)\<rparr>"

text \<open>
  The scan of the birds for one pipe, from index \<open>x\<close> on: the iterator of
  \<^verbatim>\<open>enumerate(birds)\<close> is an index into the list that the body shortens. The bird
  read at index \<open>x\<close> is used for the pass test also when it has just been popped.
\<close>

function collide_scan :: "assets \<Rightarrow> nat \<Rightarrow> pipe \<Rightarrow> bool \<Rightarrow> state \<Rightarrow> pipe \<times> bool \<times> state" where
  "collide_scan A x p add_pipe st =
     (if x < length (birds st) then
        (let b = birds st ! x;
             st' = (if collide A p b then penalise_and_pop x st else st);
             now = (\<not> passed p \<and> pipe_x p < bird_x b)
         in collide_scan A (Suc x) (if now then p\<lparr>passed := True\<rparr> else p)
              (if now then True else add_pipe) st')
      else (p, add_pipe, st))"
  by pat_completeness auto
termination
  by (relation "measure (\<lambda>(A, x, p, add_pipe, st). length (birds st) - x)")
     (auto simp: penalise_and_pop_def pop_def)

declare collide_scan.simps [simp del]

fun pipes_loop :: "assets \<Rightarrow> pipe list \<Rightarrow> bool \<Rightarrow> state \<Rightarrow> pipe list \<times> bool \<times> state" where
  "pipes_loop A [] add_pipe st = ([], add_pipe, st)"
| "pipes_loop A (p # ps) add_pipe st =
     (case collide_scan A 0 (Pipe_move p) add_pipe st of
        (p', add_pipe', st') \<Rightarrow>
          (case pipes_loop A ps add_pipe' st' of
             (ps', add_pipe'', st'') \<Rightarrow> (p' # ps', add_pipe'', st'')))"

text \<open>The pipes loop on the state: the moved pipes are written back, the flag is returned.\<close>

definition pipes_phase :: "assets \<Rightarrow> state \<Rightarrow> bool \<times> state" where
  "pipes_phase A st =
     (case pipes_loop A (pipes st) False st of
        (ps, add_pipe, st') \<Rightarrow> (add_pipe, st'\<lparr>pipes := ps\<rparr>))"

definition reward_and_spawn :: "assets \<Rightarrow> int \<Rightarrow> bool \<Rightarrow> state \<Rightarrow> state" where
  "reward_and_spawn A r add_pipe st =
     (if add_pipe then
        st\<lparr>score := score st + 1,
           fitness := fold (\<lambda>g f. f(g := fl_add (f g) 5)) (ge st) (fitness st),
           pipes := pipes st @ [Pipe_init A 600 r]\<rparr>
      else st)"

text \<open>
  \<open>rem\<close> holds the moved pipes whose right edge is left of the window; each is removed
  with \<^verbatim>\<open>list.remove\<close> after the new pipe has been appended.
\<close>

definition remove_rem :: "assets \<Rightarrow> pipe list \<Rightarrow> state \<Rightarrow> state" where
  "remove_rem A moved st =
     st\<lparr>pipes := fold remove1 (filter (\<lambda>p. pipe_x p + PIPE_width A < 0) moved) (pipes st)\<rparr>"

definition out_of_bounds :: "assets \<Rightarrow> bird \<Rightarrow> bool" where
  "out_of_bounds A b =
     (bird_y b + of_int (IMGS_height A (img b)) \<ge> of_int FLOOR \<or> bird_y b < 0)"

function oob_scan :: "assets \<Rightarrow> nat \<Rightarrow> state \<Rightarrow> state" where
  "oob_scan A x st =
     (if x < length (birds st) then
        oob_scan A (Suc x)
          (if out_of_bounds A (birds st ! x) then penalise_and_pop x st else st)
      else st)"
  by pat_completeness auto
termination
  by (relation "measure (\<lambda>(A, x, st). length (birds st) - x)")
     (auto simp: penalise_and_pop_def pop_def)

declare oob_scan.simps [simp del]

text \<open>
  One pass of the game loop after the test that birds are left. \<open>r\<close> is the random
  height of the pipe that is created if one is. Reading \<^verbatim>\<open>pipes[pipe_ind]\<close> in an
  empty list raises IndexError: the result is None. Of \<^verbatim>\<open>draw_window\<close> only
  \<^verbatim>\<open>bird.draw\<close> changes state that the loop reads again (the current image); the
  floor and the window are left out. \<open>tick_to_reward\<close> is the pass up to the point
  where the flag \<^verbatim>\<open>add_pipe\<close> is tested.
\<close>

definition tick_to_reward :: "assets \<Rightarrow> state \<Rightarrow> bool \<times> state" where
  "tick_to_reward A st =
     pipes_phase A (agents_loop (pipes st ! pipe_ind A (birds st) (pipes st)) st)"

definition tick :: "assets \<Rightarrow> int \<Rightarrow> state \<Rightarrow> state option" where
  "tick A r st =
     (if pipes st = [] then None
      else
        (case tick_to_reward A st of
           (add_pipe, st2) \<Rightarrow>
             (let st3 = reward_and_spawn A r add_pipe st2;
                  st4 = remove_rem A (pipes st2) st3;
                  st5 = oob_scan A 0 st4
              in Some (st5\<lparr>birds := map Bird_draw (birds st5)\<rparr>))))"

text \<open>
  The game loop, one random height per pass; it ends when no birds are left, and the
  list of heights bounds the number of passes (a cohort that never dies keeps the
  program's loop running). The window's quit event, which ends the process, is not
  modelled.
\<close>

fun eval_loop :: "assets \<Rightarrow> int list \<Rightarrow> state \<Rightarrow> state option" where
  "eval_loop A [] st = Some st"
| "eval_loop A (r # rs) st =
     (if birds st = [] then Some st
      else (case tick A r st of None \<Rightarrow> None | Some st' \<Rightarrow> eval_loop A rs st'))"

section \<open>Definitions used to state and prove the claims\<close>

text \<open>
  The three lists of the cohort are filled together and popped together; \<open>aligned\<close>
  says that they have one length and that no genome occurs twice (NEAT hands every
  genome of the population over once). Under it no index of the loops is out of range.
\<close>

definition aligned :: "state \<Rightarrow> bool" where
  "aligned st =
     (length (nets st) = length (birds st) \<and> length (ge st) = length (birds st) \<and>
      distinct (ge st))"

text \<open>
  Both scans have the same shape: a test on the bird at the index, and the removal.
  \<open>kill_scan\<close> is that shape for any test; the lemmas are proved once for it.
\<close>

function kill_scan :: "(bird \<Rightarrow> bool) \<Rightarrow> nat \<Rightarrow> state \<Rightarrow> state" where
  "kill_scan P x st =
     (if x < length (birds st) then
        kill_scan P (Suc x) (if P (birds st ! x) then penalise_and_pop x st else st)
      else st)"
  by pat_completeness auto
termination
  by (relation "measure (\<lambda>(P, x, st). length (birds st) - x)")
     (auto simp: penalise_and_pop_def pop_def)

declare kill_scan.simps [simp del]

text \<open>
  What a scan may change: agents leave the cohort, each with one subtraction of 1; the birds
  that stay are the same, and so are the pipes and the score.
\<close>

definition dies_only :: "state \<Rightarrow> state \<Rightarrow> bool" where
  "dies_only st st' =
     (aligned st' \<and> set (ge st') \<subseteq> set (ge st) \<and>
      (\<forall>g. fitness st' g =
         (if g \<in> set (ge st) \<and> g \<notin> set (ge st')
          then fl_sub (fitness st g) 1 else fitness st g)) \<and>
      set (zip (birds st') (ge st')) \<subseteq> set (zip (birds st) (ge st)) \<and>
      pipes st' = pipes st \<and> score st' = score st)"

text \<open>
  The rule of the specification for the target obstacle, in its words: the first
  obstacle unless its passed flag is true and a second one exists.
\<close>

definition currentTargetFor_spec :: "pipe list \<Rightarrow> nat" where
  "currentTargetFor_spec ps = (if passed (ps ! 0) \<and> length ps > 1 then 1 else 0)"

text \<open>
  The out-of-bounds test in the words of the specification: the position plus the
  silhouette height exceeds the floor line, or the position is negative.
\<close>

definition isOutOfBounds_spec :: "assets \<Rightarrow> bird \<Rightarrow> bool" where
  "isOutOfBounds_spec A b =
     (bird_y b + of_int (IMGS_height A (img b)) > of_int FLOOR \<or> bird_y b < 0)"

text \<open>
  Small assets for evaluation: bird frames of height 48 whose masks differ, and a pipe
  image of 104 by 640.
\<close>

definition example_assets :: assets where
  "example_assets =
     \<lparr>IMGS_mask = (\<lambda>i. if i = 0 then [(0, 0)] else [(0, 0), (1, 1)]),
      IMGS_height = (\<lambda>i. 48),
      PIPE_TOP_mask = [(0, 639)],
      PIPE_BOTTOM_mask = [(10, 0)],
      PIPE_width = 104,
      PIPE_height = 640\<rparr>"

text \<open>
  One bird at the spawn position, and the pipes as they are right after the first pipe
  was passed: the first at 225 with its flag set, the new one at 600.
\<close>

definition after_pass :: state where
  "after_pass =
     \<lparr>birds = [Bird_init 230 350],
      nets = [\<lambda>_. 0],
      ge = [7],
      fitness = (\<lambda>_. 0),
      pipes = [(Pipe_init example_assets 225 100)\<lparr>passed := True\<rparr>,
               Pipe_init example_assets 600 100],
      score = 1\<rparr>"

text \<open>One bird at the spawn position and a pipe at 230 that the next move takes behind it.\<close>

definition before_pass :: state where
  "before_pass =
     \<lparr>birds = [Bird_init 230 350],
      nets = [\<lambda>_. 0],
      ge = [7],
      fitness = (\<lambda>_. 0),
      pipes = [Pipe_init example_assets 230 100],
      score = 0\<rparr>"

text \<open>
  One bird at the spawn position whose network never jumps, and a pipe that it passes
  in the ninth tick and hits in the tenth.
\<close>

definition approach :: state where
  "approach =
     \<lparr>birds = [Bird_init 230 350],
      nets = [\<lambda>_. 0],
      ge = [7],
      fitness = (\<lambda>_. 0),
      pipes = [Pipe_init example_assets 270 283],
      score = 0\<rparr>"

text \<open>A cohort of three birds that are all below the floor line.\<close>

definition three_fallen :: state where
  "three_fallen =
     \<lparr>birds = [Bird_init 230 700, Bird_init 230 700, Bird_init 230 700],
      nets = [\<lambda>_. 0, \<lambda>_. 0, \<lambda>_. 0],
      ge = [0, 1, 2],
      fitness = (\<lambda>_. 0),
      pipes = [Pipe_init example_assets 600 100],
      score = 0\<rparr>"

text \<open>
  The birds that are left in the cohort when, in the tick that starts in \<open>st\<close>, the
  scan of the pipe at index \<open>k\<close> begins.
\<close>

definition cohort_at :: "assets \<Rightarrow> nat \<Rightarrow> state \<Rightarrow> bird list" where
  "cohort_at A k st =
     birds (snd (snd (pipes_loop A (take k (pipes st)) False
       (agents_loop (pipes st ! pipe_ind A (birds st) (pipes st)) st))))"

text \<open>
  The events that the fitness of genome \<open>g\<close> is the sum of, counted along the game
  loop: the ticks at whose start \<open>g\<close> is in the cohort, and the ticks in which a pipe
  is passed and \<open>g\<close> is still in the cohort when the reward is handed out.
\<close>

fun alive_ticks :: "assets \<Rightarrow> int list \<Rightarrow> state \<Rightarrow> nat \<Rightarrow> nat" where
  "alive_ticks A [] st g = 0"
| "alive_ticks A (r # rs) st g =
     (if birds st = [] then 0
      else (case tick A r st of None \<Rightarrow> 0
            | Some st' \<Rightarrow> (if g \<in> set (ge st) then 1 else 0) + alive_ticks A rs st' g))"

fun pass_rewards :: "assets \<Rightarrow> int list \<Rightarrow> state \<Rightarrow> nat \<Rightarrow> nat" where
  "pass_rewards A [] st g = 0"
| "pass_rewards A (r # rs) st g =
     (if birds st = [] then 0
      else (case tick A r st of None \<Rightarrow> 0
            | Some st' \<Rightarrow>
                (if fst (tick_to_reward A st) \<and> g \<in> set (ge (snd (tick_to_reward A st)))
                 then 1 else 0) + pass_rewards A rs st' g))"

text \<open>
  The same events in the order in which they reach the fitness of \<open>g\<close>, and what each
  does to it: within a tick the survival reward comes first, then the penalty of the
  collision scans, the pass reward, and the penalty of the out-of-bounds scan.
\<close>

datatype event = Survived | Passed | Died

fun apply_event :: "event \<Rightarrow> real \<Rightarrow> real" where
  "apply_event Survived v = fl_add v (to_double (1 / 10))"
| "apply_event Passed v = fl_add v 5"
| "apply_event Died v = fl_sub v 1"

definition tick_events :: "assets \<Rightarrow> state \<Rightarrow> state \<Rightarrow> nat \<Rightarrow> event list" where
  "tick_events A st st' g =
     (if g \<in> set (ge st) then [Survived] else []) @
     (if g \<in> set (ge st) \<and> g \<notin> set (ge (snd (tick_to_reward A st))) then [Died] else []) @
     (if fst (tick_to_reward A st) \<and> g \<in> set (ge (snd (tick_to_reward A st)))
      then [Passed] else []) @
     (if g \<in> set (ge (snd (tick_to_reward A st))) \<and> g \<notin> set (ge st') then [Died] else [])"

fun events :: "assets \<Rightarrow> int list \<Rightarrow> state \<Rightarrow> nat \<Rightarrow> event list" where
  "events A [] st g = []"
| "events A (r # rs) st g =
     (if birds st = [] then []
      else (case tick A r st of None \<Rightarrow> []
            | Some st' \<Rightarrow> tick_events A st st' g @ events A rs st' g))"

text \<open>
  The sum that the claim on the fitness promises, in exact arithmetic: 0.1 per tick
  alive, 5 per pass, and 1 off for the death.
\<close>

definition exact_sum :: "nat \<Rightarrow> nat \<Rightarrow> bool \<Rightarrow> real" where
  "exact_sum ticks passes dead =
     real ticks * (1 / 10) + real passes * 5 - (if dead then 1 else 0)"

text \<open>
  What holds whenever the game loop starts a pass: every bird is at 230, the pipe list
  is not empty, and while birds are left the newest pipe is not yet passed and not yet
  behind them.
\<close>

definition loop_inv :: "state \<Rightarrow> bool" where
  "loop_inv st =
     (list_all (\<lambda>b. bird_x b = 230) (birds st) \<and> pipes st \<noteq> [] \<and>
      (birds st = [] \<or>
       (passed (last (pipes st)) = False \<and> 230 \<le> pipe_x (last (pipes st)))))"

section \<open>Terminal velocity\<close>

lemma displacement_le: "displacement b \<le> 16"
  by (simp add: displacement_def Let_def)

lemma Bird_move_y: "bird_y (Bird_move b) = bird_y b + displacement b"
  by (simp add: Bird_move_def Let_def)

text \<open>
  C6. In every tick the physics step moves the bird down by at most 16: whatever the
  velocity and however many ticks have passed since the last jump, the displacement
  that \<open>Bird_move\<close> adds is at most 16, also in each of any number of consecutive
  moves without a jump in between.
\<close>

theorem terminal_velocity_clamp:
  "displacement b \<le> 16 \<and>
   bird_y (Bird_move b) - bird_y b \<le> 16 \<and>
   bird_y ((Bird_move ^^ Suc n) b) - bird_y ((Bird_move ^^ n) b) \<le> 16"
  by (simp add: Bird_move_y displacement_le)

section \<open>The floating-point model\<close>

lemma floor_log2_bounds: "0 < n \<Longrightarrow> 2 ^ floor_log2 n \<le> n \<and> n < 2 ^ Suc (floor_log2 n)"
proof (induction n rule: floor_log2.induct)
  case (1 n)
  show ?case
  proof (cases "n < 2")
    case True
    then show ?thesis using 1(2) by (subst (1 2) floor_log2.simps) simp
  next
    case False
    then have "0 < n div 2" by simp
    then have "2 ^ floor_log2 (n div 2) \<le> n div 2 \<and> n div 2 < 2 ^ Suc (floor_log2 (n div 2))"
      using 1(1) False by simp
    then have "2 * 2 ^ floor_log2 (n div 2) \<le> n \<and> n < 2 * 2 ^ Suc (floor_log2 (n div 2))"
      by auto
    then show ?thesis using False by (subst (1 2) floor_log2.simps) simp
  qed
qed

lemma pow2_pos: "0 < pow2 k"
  by (simp add: pow2_def)

lemma expo_bounds:
  assumes "x \<noteq> 0"
  shows "pow2 (expo x) \<le> \<bar>x\<bar> \<and> \<bar>x\<bar> < pow2 (expo x + 1)"
proof (cases "1 \<le> \<bar>x\<bar>")
  case True
  define m where "m = nat \<lfloor>\<bar>x\<bar>\<rfloor>"
  define k where "k = floor_log2 m"
  have m: "0 < m" "real m \<le> \<bar>x\<bar>" "\<bar>x\<bar> < real m + 1"
    using True by (auto simp: m_def)
  have b: "2 ^ k \<le> m" "m < 2 ^ Suc k"
    using floor_log2_bounds [OF m(1)] by (simp_all add: k_def)
  have e: "expo x = int k"
    using True by (simp add: expo_def Let_def k_def m_def)
  have lo: "(2::real) ^ k \<le> real m"
    using b(1) by (metis of_nat_le_iff of_nat_numeral of_nat_power)
  have hi: "real m + 1 \<le> 2 ^ Suc k"
  proof -
    have "m + 1 \<le> 2 ^ Suc k" using b(2) by simp
    then have "real (m + 1) \<le> real (2 ^ Suc k)" by (rule iffD2 [OF of_nat_le_iff])
    then show ?thesis by simp
  qed
  have 1: "2 ^ k \<le> \<bar>x\<bar>" using lo m(2) by linarith
  have 2: "\<bar>x\<bar> < 2 ^ Suc k" using hi m(3) by linarith
  have "pow2 (int k) = 2 ^ k" "pow2 (int k + 1) = 2 ^ Suc k"
    by (simp_all add: pow2_def nat_add_distrib)
  then show ?thesis
    unfolding e using 1 2 by simp
next
  case False
  define a where "a = \<bar>x\<bar>"
  have a: "0 < a" "a < 1" using assms False by (simp_all add: a_def)
  define n where "n = \<lceil>1 / a\<rceil>"
  have inv: "1 < 1 / a" using a by simp
  have n: "1 / a \<le> of_int n" "of_int n - 1 < 1 / a" "2 \<le> n"
    using inv by (simp_all add: n_def) linarith+
  define m where "m = nat (n - 1)"
  define k where "k = floor_log2 m"
  have m: "0 < m" "real m = of_int n - 1"
    using n(3) by (simp_all add: m_def)
  have b: "2 ^ k \<le> m" "m < 2 ^ Suc k"
    using floor_log2_bounds [OF m(1)] by (simp_all add: k_def)
  have e: "expo x = - int (Suc k)"
    using False by (simp add: expo_def Let_def k_def m_def n_def a_def)
  have lo: "(2::real) ^ k \<le> real m"
    using b(1) by (metis of_nat_le_iff of_nat_numeral of_nat_power)
  have hi: "real m + 1 \<le> 2 ^ Suc k"
  proof -
    have "m + 1 \<le> 2 ^ Suc k" using b(2) by simp
    then have "real (m + 1) \<le> real (2 ^ Suc k)" by (rule iffD2 [OF of_nat_le_iff])
    then show ?thesis by simp
  qed
  have 1: "1 / a \<le> 2 ^ Suc k" using n(1) m(2) hi by linarith
  have 2: "2 ^ k < 1 / a" using n(2) m(2) lo by linarith
  have "1 / 2 ^ Suc k \<le> a"
    using 1 a(1) by (simp add: field_simps)
  moreover have "a < 1 / 2 ^ k"
    using 2 a(1) by (simp add: field_simps)
  moreover have "pow2 (- int (Suc k) + 1) = 1 / 2 ^ k"
  proof -
    have eq: "- int (Suc k) + 1 = - int k" by simp
    have "pow2 (- int k) = 1 / 2 ^ k"
      by (cases "k = 0") (simp_all add: pow2_def)
    then show ?thesis unfolding eq .
  qed
  moreover have "pow2 (- int (Suc k)) = 1 / 2 ^ Suc k"
    by (simp add: pow2_def nat_add_distrib)
  ultimately show ?thesis
    unfolding e a_def by simp
qed

lemma py_round_error: "\<bar>of_int (py_round v) - v\<bar> \<le> 1 / 2"
  by (simp add: py_round_def Let_def)

lemma to_double_error: "\<bar>to_double x - x\<bar> \<le> pow2 (max (expo x) (- 1022) - 52) / 2"
proof (cases "x = 0")
  case True
  then show ?thesis using pow2_pos [of "max (expo 0) (- 1022) - 52"] by (simp add: to_double_def)
next
  case False
  define u where "u = pow2 (max (expo x) (- 1022) - 52)"
  have u: "0 < u" by (simp add: u_def pow2_pos)
  have "\<bar>of_int (py_round (x / u)) - x / u\<bar> \<le> 1 / 2" by (rule py_round_error)
  then have "\<bar>of_int (py_round (x / u)) - x / u\<bar> * u \<le> 1 / 2 * u"
    using u by (simp add: mult_right_mono)
  moreover have "\<bar>of_int (py_round (x / u)) - x / u\<bar> * u = \<bar>of_int (py_round (x / u)) * u - x\<bar>"
  proof -
    have "(of_int (py_round (x / u)) - x / u) * u = of_int (py_round (x / u)) * u - x"
      using u by (simp add: left_diff_distrib)
    moreover have "\<bar>of_int (py_round (x / u)) - x / u\<bar> * u =
        \<bar>(of_int (py_round (x / u)) - x / u) * u\<bar>"
      using u by (simp add: abs_mult)
    ultimately show ?thesis by simp
  qed
  ultimately show ?thesis
    using False by (simp add: to_double_def Let_def u_def [symmetric])
qed

lemmas fl_simps = to_double_def fl_add_def fl_sub_def expo_def pow2_def floor_log2.simps
  py_round_def Let_def

lemma to_double_tenth: "to_double (1 / 10) = 3602879701896397 / 36028797018963968"
  by (simp add: fl_simps)

lemma to_double_int: "to_double 0 = 0" "to_double 1 = 1" "to_double 5 = 5" "to_double (- 1) = - 1"
  by (simp_all add: fl_simps)

section \<open>Removing an agent from the three lists\<close>

lemma length_pop: "x < length xs \<Longrightarrow> length (pop x xs) = length xs - 1"
  by (simp add: pop_def)

lemma set_pop_subset: "set (pop x xs) \<subseteq> set xs"
  by (auto simp: pop_def dest: in_set_takeD in_set_dropD)

lemma distinct_pop: "distinct xs \<Longrightarrow> distinct (pop x xs)"
  using set_take_disj_set_drop_if_distinct [of xs x "Suc x"]
  by (simp add: pop_def)

lemma set_pop_distinct:
  assumes "distinct xs" "x < length xs"
  shows "set (pop x xs) = set xs - {xs ! x}"
proof -
  have xs: "xs = take x xs @ xs ! x # drop (Suc x) xs"
    using assms(2) by (simp add: id_take_nth_drop)
  have "distinct (take x xs @ xs ! x # drop (Suc x) xs)"
    using assms(1) xs by simp
  then have "xs ! x \<notin> set (take x xs)" "xs ! x \<notin> set (drop (Suc x) xs)"
    by auto
  moreover have "set xs = set (take x xs) \<union> {xs ! x} \<union> set (drop (Suc x) xs)"
    by (subst xs) auto
  ultimately show ?thesis
    by (auto simp: pop_def)
qed

lemma nth_pop: "Suc i < length xs \<or> (i < x \<and> i < length xs) \<Longrightarrow>
  pop x xs ! i = (if i < x then xs ! i else xs ! Suc i)"
  by (auto simp: pop_def nth_append min_def)

lemma take_pop: "n \<le> x \<Longrightarrow> take n (pop x xs) = take n xs"
  by (simp add: pop_def min_def)

lemma zip_pop: "length xs = length ys \<Longrightarrow> zip (pop x xs) (pop x ys) = pop x (zip xs ys)"
  by (simp add: pop_def take_zip drop_zip min_def)

lemma pap_aligned: "aligned st \<Longrightarrow> x < length (birds st) \<Longrightarrow> aligned (penalise_and_pop x st)"
  by (simp add: aligned_def penalise_and_pop_def length_pop distinct_pop)

lemma pap_ge: "aligned st \<Longrightarrow> x < length (birds st) \<Longrightarrow>
  set (ge (penalise_and_pop x st)) = set (ge st) - {ge st ! x}"
  by (simp add: aligned_def penalise_and_pop_def set_pop_distinct)

lemma pap_fitness:
  "fitness (penalise_and_pop x st) g =
     (if g = ge st ! x then fl_sub (fitness st g) 1 else fitness st g)"
  by (simp add: penalise_and_pop_def)

lemma pap_other [simp]:
  "pipes (penalise_and_pop x st) = pipes st"
  "score (penalise_and_pop x st) = score st"
  "birds (penalise_and_pop x st) = pop x (birds st)"
  "nets (penalise_and_pop x st) = pop x (nets st)"
  "ge (penalise_and_pop x st) = pop x (ge st)"
  by (simp_all add: penalise_and_pop_def)

lemma pap_zip: "aligned st \<Longrightarrow>
  zip (birds (penalise_and_pop x st)) (ge (penalise_and_pop x st)) = pop x (zip (birds st) (ge st))"
  by (simp add: aligned_def zip_pop)

section \<open>What a scan keeps and what it removes\<close>

lemma kill_scan_aligned: "aligned st \<Longrightarrow> aligned (kill_scan P x st)"
proof (induction P x st rule: kill_scan.induct)
  case (1 P x st)
  show ?case
  proof (cases "x < length (birds st)")
    case True
    then show ?thesis
      using 1 by (subst kill_scan.simps) (simp add: pap_aligned)
  next
    case False
    then show ?thesis using 1 by (subst kill_scan.simps) simp
  qed
qed

lemma kill_scan_frame:
  "pipes (kill_scan P x st) = pipes st \<and> score (kill_scan P x st) = score st"
proof (induction P x st rule: kill_scan.induct)
  case (1 P x st)
  show ?case
  proof (cases "x < length (birds st)")
    case True
    then show ?thesis
      using 1 by (subst (1 2) kill_scan.simps) simp
  next
    case False
    then show ?thesis by (subst (1 2) kill_scan.simps) simp
  qed
qed

lemma kill_scan_take:
  "take x (birds (kill_scan P x st)) = take x (birds st) \<and>
   take x (nets (kill_scan P x st)) = take x (nets st) \<and>
   take x (ge (kill_scan P x st)) = take x (ge st)"
proof (induction P x st rule: kill_scan.induct)
  case (1 P x st)
  show ?case
  proof (cases "x < length (birds st)")
    case True
    let ?st = "if P (birds st ! x) then penalise_and_pop x st else st"
    have eq: "kill_scan P x st = kill_scan P (Suc x) ?st"
      using True by (subst kill_scan.simps) simp
    have "take x (take (Suc x) (birds (kill_scan P (Suc x) ?st))) = take x (take (Suc x) (birds ?st))"
         "take x (take (Suc x) (nets (kill_scan P (Suc x) ?st))) = take x (take (Suc x) (nets ?st))"
         "take x (take (Suc x) (ge (kill_scan P (Suc x) ?st))) = take x (take (Suc x) (ge ?st))"
      using 1 [OF True] by simp_all
    then show ?thesis
      unfolding eq by (simp add: min_def take_pop)
  next
    case False
    then show ?thesis by (subst (1 2 3) kill_scan.simps) simp
  qed
qed

lemma kill_scan_ge_subset: "aligned st \<Longrightarrow> set (ge (kill_scan P x st)) \<subseteq> set (ge st)"
proof (induction P x st rule: kill_scan.induct)
  case (1 P x st)
  show ?case
  proof (cases "x < length (birds st)")
    case True
    let ?st = "if P (birds st ! x) then penalise_and_pop x st else st"
    have eq: "kill_scan P x st = kill_scan P (Suc x) ?st"
      using True by (subst kill_scan.simps) simp
    have al: "aligned ?st" using 1(2) True by (simp add: pap_aligned)
    have "set (ge ?st) \<subseteq> set (ge st)"
      using 1(2) True by (auto simp: pap_ge simp del: pap_other)
    then show ?thesis
      unfolding eq using 1(1) [OF True al] by blast
  next
    case False
    then show ?thesis by (subst kill_scan.simps) simp
  qed
qed

lemma kill_scan_fitness:
  "aligned st \<Longrightarrow>
   fitness (kill_scan P x st) g =
     (if g \<in> set (ge st) \<and> g \<notin> set (ge (kill_scan P x st))
      then fl_sub (fitness st g) 1 else fitness st g)"
proof (induction P x st rule: kill_scan.induct)
  case (1 P x st)
  show ?case
  proof (cases "x < length (birds st)")
    case True
    let ?st = "if P (birds st ! x) then penalise_and_pop x st else st"
    have eq: "kill_scan P x st = kill_scan P (Suc x) ?st"
      using True by (subst kill_scan.simps) simp
    have al: "aligned ?st" using 1(2) True by (simp add: pap_aligned)
    have sub: "set (ge (kill_scan P (Suc x) ?st)) \<subseteq> set (ge ?st)"
      using al by (rule kill_scan_ge_subset)
    have ih: "fitness (kill_scan P (Suc x) ?st) g =
       (if g \<in> set (ge ?st) \<and> g \<notin> set (ge (kill_scan P (Suc x) ?st))
        then fl_sub (fitness ?st g) 1 else fitness ?st g)"
      using 1(1) [OF True al] .
    have xin: "ge st ! x \<in> set (ge st)"
      using 1(2) True by (simp add: aligned_def)
    show ?thesis
    proof (cases "P (birds st ! x)")
      case True
      have g: "set (ge (penalise_and_pop x st)) = set (ge st) - {ge st ! x}"
        using 1(2) \<open>x < length (birds st)\<close> by (rule pap_ge)
      show ?thesis
        unfolding eq using ih sub xin True g
        by (auto simp: pap_fitness simp del: pap_other)
    next
      case False
      then show ?thesis unfolding eq using ih by simp
    qed
  next
    case False
    then show ?thesis by (subst (1 2) kill_scan.simps) simp
  qed
qed

lemma kill_scan_zip:
  "aligned st \<Longrightarrow>
   set (zip (birds (kill_scan P x st)) (ge (kill_scan P x st))) \<subseteq> set (zip (birds st) (ge st))"
proof (induction P x st rule: kill_scan.induct)
  case (1 P x st)
  show ?case
  proof (cases "x < length (birds st)")
    case True
    let ?st = "if P (birds st ! x) then penalise_and_pop x st else st"
    have eq: "kill_scan P x st = kill_scan P (Suc x) ?st"
      using True by (subst kill_scan.simps) simp
    have al: "aligned ?st" using 1(2) True by (simp add: pap_aligned)
    have "set (zip (birds ?st) (ge ?st)) \<subseteq> set (zip (birds st) (ge st))"
      using pap_zip [OF 1(2), of x] set_pop_subset [of x "zip (birds st) (ge st)"] by auto
    then show ?thesis
      unfolding eq using 1(1) [OF True al] by blast
  next
    case False
    then show ?thesis by (subst (1 2) kill_scan.simps) simp
  qed
qed

lemma zip_nth_distinct:
  assumes "distinct ys" "length xs = length ys" "(b, g) \<in> set (zip xs ys)" "i < length ys" "g = ys ! i"
  shows "b = xs ! i"
proof -
  obtain j where j: "j < length ys" "xs ! j = b" "ys ! j = g"
    using assms(2,3) by (auto simp: set_zip)
  then have "j = i" using assms(1,4,5) by (simp add: nth_eq_iff_index_eq)
  then show ?thesis using j by simp
qed

lemma in_set_pop:
  assumes "e \<in> set xs" "x < length xs" "e \<noteq> xs ! x"
  shows "e \<in> set (pop x xs)"
proof -
  have "set xs = set (take x xs @ xs ! x # drop (Suc x) xs)"
    using assms(2) by (simp add: id_take_nth_drop [symmetric])
  then show ?thesis using assms(1,3) by (auto simp: pop_def)
qed

lemma kill_scan_removed:
  "aligned st \<Longrightarrow> (b, g) \<in> set (zip (birds st) (ge st)) \<Longrightarrow>
   g \<notin> set (ge (kill_scan P x st)) \<Longrightarrow> P b"
proof (induction P x st rule: kill_scan.induct)
  case (1 P x st)
  show ?case
  proof (cases "x < length (birds st)")
    case True
    note x = True
    let ?st = "if P (birds st ! x) then penalise_and_pop x st else st"
    have eq: "kill_scan P x st = kill_scan P (Suc x) ?st"
      using True by (subst kill_scan.simps) simp
    have al: "aligned ?st" using 1(2) True by (simp add: pap_aligned)
    have gout: "g \<notin> set (ge (kill_scan P (Suc x) ?st))"
      using 1(4) unfolding eq .
    have len: "length (birds st) = length (ge st)" "distinct (ge st)"
      using 1(2) by (simp_all add: aligned_def)
    show ?thesis
    proof (cases "P (birds st ! x)")
      case False
      then show ?thesis using 1(1) [OF x al _ gout] 1(3) by simp
    next
      case True
      note P = True
      show ?thesis
      proof (cases "g = ge st ! x")
        case True
        have "b = birds st ! x"
          using zip_nth_distinct [OF len(2) len(1) 1(3) _ True] x len(1) by simp
        then show ?thesis using P by simp
      next
        case False
        have "(b, g) \<noteq> zip (birds st) (ge st) ! x"
          using False x len(1) by simp
        then have "(b, g) \<in> set (pop x (zip (birds st) (ge st)))"
          using in_set_pop [OF 1(3), of x] x len(1) by simp
        then have "(b, g) \<in> set (zip (birds ?st) (ge ?st))"
          using P pap_zip [OF 1(2), of x] by simp
        then show ?thesis using 1(1) [OF x al _ gout] by simp
      qed
    qed
  next
    case False
    then have "kill_scan P x st = st" by (subst kill_scan.simps) simp
    then show ?thesis using 1(3,4) by (auto dest: set_zip_rightD)
  qed
qed

lemma kill_scan_examined:
  assumes "aligned st" "x < length (birds st)" "P (birds st ! x)"
  shows "ge st ! x \<notin> set (ge (kill_scan P x st))"
proof -
  have eq: "kill_scan P x st = kill_scan P (Suc x) (penalise_and_pop x st)"
    using assms(2,3) by (subst kill_scan.simps) simp
  have "set (ge (kill_scan P (Suc x) (penalise_and_pop x st))) \<subseteq> set (ge (penalise_and_pop x st))"
    using assms(1,2) by (intro kill_scan_ge_subset pap_aligned)
  then show ?thesis
    unfolding eq using pap_ge [OF assms(1,2)] by auto
qed

lemma kill_scan_skip:
  assumes "aligned st" "Suc x < length (birds st)" "P (birds st ! x)"
  shows "x < length (birds (kill_scan P x st)) \<and>
         birds (kill_scan P x st) ! x = birds st ! Suc x \<and>
         nets (kill_scan P x st) ! x = nets st ! Suc x \<and>
         ge (kill_scan P x st) ! x = ge st ! Suc x"
proof -
  let ?st = "penalise_and_pop x st"
  have eq: "kill_scan P x st = kill_scan P (Suc x) ?st"
    using assms(2,3) by (subst kill_scan.simps) simp
  have len: "length (nets st) = length (birds st)" "length (ge st) = length (birds st)"
    using assms(1) by (simp_all add: aligned_def)
  have tk: "take (Suc x) (birds (kill_scan P (Suc x) ?st)) = take (Suc x) (birds ?st)"
    "take (Suc x) (nets (kill_scan P (Suc x) ?st)) = take (Suc x) (nets ?st)"
    "take (Suc x) (ge (kill_scan P (Suc x) ?st)) = take (Suc x) (ge ?st)"
    using kill_scan_take [of "Suc x" P ?st] by simp_all
  have "length (take (Suc x) (birds (kill_scan P (Suc x) ?st))) = Suc x"
    unfolding tk using assms(2) by (simp add: length_pop)
  then have l: "x < length (birds (kill_scan P (Suc x) ?st))" by simp
  have "birds (kill_scan P (Suc x) ?st) ! x = take (Suc x) (birds (kill_scan P (Suc x) ?st)) ! x"
       "nets (kill_scan P (Suc x) ?st) ! x = take (Suc x) (nets (kill_scan P (Suc x) ?st)) ! x"
       "ge (kill_scan P (Suc x) ?st) ! x = take (Suc x) (ge (kill_scan P (Suc x) ?st)) ! x"
    by simp_all
  then show ?thesis
    unfolding eq tk using l assms(2) len by (simp add: nth_pop)
qed

section \<open>The two scans of the program\<close>

lemma oob_scan_kill: "oob_scan A x st = kill_scan (out_of_bounds A) x st"
proof (induction A x st rule: oob_scan.induct)
  case (1 A x st)
  show ?case
  proof (cases "x < length (birds st)")
    case True
    then show ?thesis
      using 1 by (subst oob_scan.simps, subst kill_scan.simps) simp
  next
    case False
    then show ?thesis
      by (subst oob_scan.simps, subst kill_scan.simps) simp
  qed
qed

lemma collide_passed [simp]: "collide A (p\<lparr>passed := v\<rparr>) = collide A p"
  by (rule ext) (simp add: collide_def)

lemma collide_scan_state:
  "snd (snd (collide_scan A x p add_pipe st)) = kill_scan (collide A p) x st"
proof (induction A x p add_pipe st rule: collide_scan.induct)
  case (1 A x p add_pipe st)
  show ?case
  proof (cases "x < length (birds st)")
    case True
    then show ?thesis
      using 1 [OF True refl refl refl]
      by (subst collide_scan.simps, subst kill_scan.simps) (simp add: Let_def)
  next
    case False
    then show ?thesis
      by (subst collide_scan.simps, subst kill_scan.simps) simp
  qed
qed

lemma kill_scan_birds_subset: "set (birds (kill_scan P x st)) \<subseteq> set (birds st)"
proof (induction P x st rule: kill_scan.induct)
  case (1 P x st)
  show ?case
  proof (cases "x < length (birds st)")
    case True
    let ?st = "if P (birds st ! x) then penalise_and_pop x st else st"
    have eq: "kill_scan P x st = kill_scan P (Suc x) ?st"
      using True by (subst kill_scan.simps) simp
    have "set (birds ?st) \<subseteq> set (birds st)"
      using set_pop_subset [of x "birds st"] by simp
    then show ?thesis unfolding eq using 1 [OF True] by blast
  next
    case False
    then show ?thesis by (subst kill_scan.simps) simp
  qed
qed

lemma drop_Suc_pop: "set (drop (Suc x) (pop x xs)) \<subseteq> set (drop x xs)"
proof -
  have "drop (Suc x) (pop x xs) = drop (Suc (Suc x)) xs"
    by (cases "x \<le> length xs") (simp_all add: pop_def min_def)
  then show ?thesis
    by (metis drop_drop plus_1_eq_Suc set_drop_subset)
qed

lemma collide_scan_flags:
  "pipe_x (fst (collide_scan A x p add_pipe st)) = pipe_x p \<and>
   pipe_height (fst (collide_scan A x p add_pipe st)) = pipe_height p \<and>
   pipe_top (fst (collide_scan A x p add_pipe st)) = pipe_top p \<and>
   pipe_bottom (fst (collide_scan A x p add_pipe st)) = pipe_bottom p \<and>
   (passed p \<longrightarrow> passed (fst (collide_scan A x p add_pipe st))) \<and>
   fst (snd (collide_scan A x p add_pipe st)) =
     (add_pipe \<or> (\<not> passed p \<and> passed (fst (collide_scan A x p add_pipe st)))) \<and>
   (\<not> passed p \<and> passed (fst (collide_scan A x p add_pipe st)) \<longrightarrow>
      (\<exists>b \<in> set (drop x (birds st)). pipe_x p < bird_x b)) \<and>
   (x < length (birds st) \<and> pipe_x p < bird_x (birds st ! x) \<longrightarrow>
      passed (fst (collide_scan A x p add_pipe st)))"
proof (induction A x p add_pipe st rule: collide_scan.induct)
  case (1 A x p add_pipe st)
  show ?case
  proof (cases "x < length (birds st)")
    case False
    then have "collide_scan A x p add_pipe st = (p, add_pipe, st)"
      by (subst collide_scan.simps) simp
    then show ?thesis using False by simp
  next
    case True
    define b where "b = birds st ! x"
    define st' where "st' = (if collide A p b then penalise_and_pop x st else st)"
    define now where "now = (\<not> passed p \<and> pipe_x p < bird_x b)"
    define p1 where "p1 = (if now then p\<lparr>passed := True\<rparr> else p)"
    define a1 where "a1 = (if now then True else add_pipe)"
    have eq: "collide_scan A x p add_pipe st = collide_scan A (Suc x) p1 a1 st'"
      using True by (subst collide_scan.simps) (simp add: Let_def b_def st'_def now_def p1_def a1_def)
    define q where "q = fst (collide_scan A (Suc x) p1 a1 st')"
    define a where "a = fst (snd (collide_scan A (Suc x) p1 a1 st'))"
    note ih = 1 [OF True b_def st'_def now_def, folded p1_def a1_def, folded q_def a_def]
    have f: "pipe_x q = pipe_x p1" "pipe_height q = pipe_height p1"
      "pipe_top q = pipe_top p1" "pipe_bottom q = pipe_bottom p1"
      and mono: "passed p1 \<longrightarrow> passed q"
      and add: "a = (a1 \<or> (\<not> passed p1 \<and> passed q))"
      and sound: "\<not> passed p1 \<and> passed q \<longrightarrow> (\<exists>b \<in> set (drop (Suc x) (birds st')). pipe_x p1 < bird_x b)"
      using ih by blast+
    have bin: "b \<in> set (drop x (birds st))"
      using True unfolding b_def by (metis Cons_nth_drop_Suc list.set_intros(1))
    have "set (drop (Suc x) (birds st)) \<subseteq> set (drop x (birds st))"
      by (metis set_drop_subset drop_drop plus_1_eq_Suc)
    then have sub: "set (drop (Suc x) (birds st')) \<subseteq> set (drop x (birds st))"
      using drop_Suc_pop [of x "birds st"] by (simp add: st'_def)
    have p1f: "pipe_x p1 = pipe_x p" "pipe_height p1 = pipe_height p"
      "pipe_top p1 = pipe_top p" "pipe_bottom p1 = pipe_bottom p"
      by (simp_all add: p1_def)
    have c1: "pipe_x q = pipe_x p" "pipe_height q = pipe_height p"
      "pipe_top q = pipe_top p" "pipe_bottom q = pipe_bottom p"
      using f p1f by simp_all
    have c2: "passed p \<longrightarrow> passed q"
      using mono by (simp add: p1_def split: if_splits)
    have c3: "a = (add_pipe \<or> (\<not> passed p \<and> passed q))"
      using add mono by (auto simp: p1_def a1_def now_def split: if_splits)
    have c4: "\<not> passed p \<and> passed q \<longrightarrow> (\<exists>b \<in> set (drop x (birds st)). pipe_x p < bird_x b)"
    proof (cases now)
      case True
      then show ?thesis using bin by (auto simp: now_def)
    next
      case False
      then have "p1 = p" by (simp add: p1_def)
      then show ?thesis using sound sub by auto
    qed
    have c5: "x < length (birds st) \<and> pipe_x p < bird_x (birds st ! x) \<longrightarrow> passed q"
    proof (cases now)
      case True
      then have "passed p1" by (simp add: p1_def)
      then show ?thesis using mono by simp
    next
      case False
      then show ?thesis using c2 by (auto simp: now_def b_def)
    qed
    show ?thesis
      unfolding eq q_def [symmetric] a_def [symmetric]
      using c1 c2 c3 c4 c5 by blast
  qed
qed

section \<open>The loop over the pipes\<close>

lemma dies_only_refl: "aligned st \<Longrightarrow> dies_only st st"
  by (simp add: dies_only_def)

lemma dies_only_trans:
  assumes "dies_only a b" "dies_only b c"
  shows "dies_only a c"
proof -
  have "fitness c g =
      (if g \<in> set (ge a) \<and> g \<notin> set (ge c) then fl_sub (fitness a g) 1 else fitness a g)" for g
  proof -
    have 1: "fitness b g =
        (if g \<in> set (ge a) \<and> g \<notin> set (ge b) then fl_sub (fitness a g) 1 else fitness a g)"
      and 2: "fitness c g =
        (if g \<in> set (ge b) \<and> g \<notin> set (ge c) then fl_sub (fitness b g) 1 else fitness b g)"
      and 3: "set (ge b) \<subseteq> set (ge a)" "set (ge c) \<subseteq> set (ge b)"
      using assms by (simp_all add: dies_only_def)
    show ?thesis
      unfolding 2 1 using 3 by auto
  qed
  moreover have "aligned c" "set (ge c) \<subseteq> set (ge a)"
    "set (zip (birds c) (ge c)) \<subseteq> set (zip (birds a) (ge a))"
    "pipes c = pipes a" "score c = score a"
    using assms unfolding dies_only_def by (blast, blast, blast, simp, simp)
  ultimately show ?thesis
    unfolding dies_only_def by blast
qed

lemma kill_scan_dies_only: "aligned st \<Longrightarrow> dies_only st (kill_scan P x st)"
  unfolding dies_only_def
  using kill_scan_aligned [of st P x] kill_scan_ge_subset [of st P x]
    kill_scan_fitness [of st P x] kill_scan_zip [of st P x] kill_scan_frame [of P x st]
  by simp

lemma pipes_loop_dies_only:
  "aligned st \<Longrightarrow> dies_only st (snd (snd (pipes_loop A ps add_pipe st)))"
proof (induction ps arbitrary: add_pipe st)
  case Nil
  then show ?case by (simp add: dies_only_refl)
next
  case (Cons p ps)
  obtain p' a' st' where r: "collide_scan A 0 (Pipe_move p) add_pipe st = (p', a', st')"
    by (cases "collide_scan A 0 (Pipe_move p) add_pipe st") auto
  have st': "st' = kill_scan (collide A (Pipe_move p)) 0 st"
    using collide_scan_state [of A 0 "Pipe_move p" add_pipe st] r by simp
  have 1: "dies_only st st'"
    unfolding st' using Cons.prems by (rule kill_scan_dies_only)
  then have "aligned st'" by (simp add: dies_only_def)
  then have 2: "dies_only st' (snd (snd (pipes_loop A ps a' st')))"
    by (rule Cons.IH)
  show ?case
    using dies_only_trans [OF 1 2] r by (auto split: prod.splits)
qed

lemma pipes_loop_birds_subset:
  "set (birds (snd (snd (pipes_loop A ps add_pipe st)))) \<subseteq> set (birds st)"
proof (induction ps arbitrary: add_pipe st)
  case Nil
  then show ?case by simp
next
  case (Cons p ps)
  obtain p' a' st' where r: "collide_scan A 0 (Pipe_move p) add_pipe st = (p', a', st')"
    by (cases "collide_scan A 0 (Pipe_move p) add_pipe st") auto
  have st': "st' = kill_scan (collide A (Pipe_move p)) 0 st"
    using collide_scan_state [of A 0 "Pipe_move p" add_pipe st] r by simp
  have "set (birds st') \<subseteq> set (birds st)"
    unfolding st' by (rule kill_scan_birds_subset)
  then show ?case
    using Cons.IH [of a' st'] r by (auto split: prod.splits)
qed

lemma pipes_loop_flags:
  "length (fst (pipes_loop A ps add_pipe st)) = length ps \<and>
   (\<forall>k<length ps.
      pipe_x (fst (pipes_loop A ps add_pipe st) ! k) = pipe_x (ps ! k) - VEL \<and>
      pipe_height (fst (pipes_loop A ps add_pipe st) ! k) = pipe_height (ps ! k) \<and>
      pipe_top (fst (pipes_loop A ps add_pipe st) ! k) = pipe_top (ps ! k) \<and>
      pipe_bottom (fst (pipes_loop A ps add_pipe st) ! k) = pipe_bottom (ps ! k) \<and>
      (passed (ps ! k) \<longrightarrow> passed (fst (pipes_loop A ps add_pipe st) ! k)) \<and>
      (\<not> passed (ps ! k) \<and> passed (fst (pipes_loop A ps add_pipe st) ! k) \<longrightarrow>
         (\<exists>b \<in> set (birds st). pipe_x (ps ! k) - VEL < bird_x b))) \<and>
   fst (snd (pipes_loop A ps add_pipe st)) =
     (add_pipe \<or> (\<exists>k<length ps. \<not> passed (ps ! k) \<and> passed (fst (pipes_loop A ps add_pipe st) ! k)))"
proof (induction ps arbitrary: add_pipe st)
  case Nil
  then show ?case by simp
next
  case (Cons p ps)
  obtain p' a' st' where r: "collide_scan A 0 (Pipe_move p) add_pipe st = (p', a', st')"
    by (cases "collide_scan A 0 (Pipe_move p) add_pipe st") auto
  obtain ps' a'' st'' where r2: "pipes_loop A ps a' st' = (ps', a'', st'')"
    by (cases "pipes_loop A ps a' st'") auto
  have eq: "pipes_loop A (p # ps) add_pipe st = (p' # ps', a'', st'')"
    using r r2 by simp
  have st': "st' = kill_scan (collide A (Pipe_move p)) 0 st"
    using collide_scan_state [of A 0 "Pipe_move p" add_pipe st] r by simp
  have sub: "set (birds st') \<subseteq> set (birds st)"
    unfolding st' by (rule kill_scan_birds_subset)
  have h: "pipe_x p' = pipe_x p - VEL" "pipe_height p' = pipe_height p"
    "pipe_top p' = pipe_top p" "pipe_bottom p' = pipe_bottom p"
    "passed p \<longrightarrow> passed p'"
    "a' = (add_pipe \<or> (\<not> passed p \<and> passed p'))"
    "\<not> passed p \<and> passed p' \<longrightarrow> (\<exists>b \<in> set (birds st). pipe_x p - VEL < bird_x b)"
    using collide_scan_flags [of A 0 "Pipe_move p" add_pipe st] r
    by (simp_all add: Pipe_move_def)
  have ih: "length ps' = length ps"
    "\<forall>k<length ps.
      pipe_x (ps' ! k) = pipe_x (ps ! k) - VEL \<and>
      pipe_height (ps' ! k) = pipe_height (ps ! k) \<and>
      pipe_top (ps' ! k) = pipe_top (ps ! k) \<and>
      pipe_bottom (ps' ! k) = pipe_bottom (ps ! k) \<and>
      (passed (ps ! k) \<longrightarrow> passed (ps' ! k)) \<and>
      (\<not> passed (ps ! k) \<and> passed (ps' ! k) \<longrightarrow>
         (\<exists>b \<in> set (birds st'). pipe_x (ps ! k) - VEL < bird_x b))"
    "a'' = (a' \<or> (\<exists>k<length ps. \<not> passed (ps ! k) \<and> passed (ps' ! k)))"
    using Cons.IH [of a' st'] unfolding r2 by simp_all
  have tl: "\<forall>k<length ps.
      pipe_x (ps' ! k) = pipe_x (ps ! k) - VEL \<and>
      pipe_height (ps' ! k) = pipe_height (ps ! k) \<and>
      pipe_top (ps' ! k) = pipe_top (ps ! k) \<and>
      pipe_bottom (ps' ! k) = pipe_bottom (ps ! k) \<and>
      (passed (ps ! k) \<longrightarrow> passed (ps' ! k)) \<and>
      (\<not> passed (ps ! k) \<and> passed (ps' ! k) \<longrightarrow>
         (\<exists>b \<in> set (birds st). pipe_x (ps ! k) - VEL < bird_x b))"
    using ih(2) sub by blast
  show ?case
    unfolding eq using h ih(1,3) tl
    by (simp add: All_less_Suc2 Ex_less_Suc2)
qed

lemma pipes_loop_complete:
  "\<forall>b \<in> set (birds st). bird_x b = bx \<Longrightarrow> k < length ps \<Longrightarrow>
   pipe_x (ps ! k) - VEL < bx \<Longrightarrow>
   birds (snd (snd (pipes_loop A (take k ps) add_pipe st))) \<noteq> [] \<Longrightarrow>
   passed (fst (pipes_loop A ps add_pipe st) ! k)"
proof (induction ps arbitrary: k add_pipe st)
  case Nil
  then show ?case by simp
next
  case (Cons p ps)
  obtain p' a' st' where r: "collide_scan A 0 (Pipe_move p) add_pipe st = (p', a', st')"
    by (cases "collide_scan A 0 (Pipe_move p) add_pipe st") auto
  obtain ps' a'' st'' where r2: "pipes_loop A ps a' st' = (ps', a'', st'')"
    by (cases "pipes_loop A ps a' st'") auto
  have eq: "pipes_loop A (p # ps) add_pipe st = (p' # ps', a'', st'')"
    using r r2 by simp
  show ?case
  proof (cases k)
    case 0
    then have ne: "birds st \<noteq> []" using Cons.prems(4) by simp
    then have "birds st ! 0 \<in> set (birds st)" by simp
    then have "bird_x (birds st ! 0) = bx" using Cons.prems(1) by blast
    then have "passed p'"
      using collide_scan_flags [of A 0 "Pipe_move p" add_pipe st] r ne Cons.prems(3) 0
      by (simp add: Pipe_move_def)
    then show ?thesis unfolding eq using 0 by simp
  next
    case (Suc j)
    have st': "st' = kill_scan (collide A (Pipe_move p)) 0 st"
      using collide_scan_state [of A 0 "Pipe_move p" add_pipe st] r by simp
    have "set (birds st') \<subseteq> set (birds st)"
      unfolding st' by (rule kill_scan_birds_subset)
    then have 1: "\<forall>b \<in> set (birds st'). bird_x b = bx"
      using Cons.prems(1) by blast
    have 2: "j < length ps" "pipe_x (ps ! j) - VEL < bx"
      using Cons.prems(2,3) Suc by simp_all
    have 3: "birds (snd (snd (pipes_loop A (take j ps) a' st'))) \<noteq> []"
      using Cons.prems(4) Suc r by (simp split: prod.splits)
    have "passed (fst (pipes_loop A ps a' st') ! j)"
      using Cons.IH [OF 1 2 3] .
    then show ?thesis unfolding eq using Suc r2 by simp
  qed
qed

section \<open>The loop over the agents\<close>

lemma example_assets_fields:
  "IMGS_mask example_assets i = (if i = 0 then [(0, 0)] else [(0, 0), (1, 1)])"
  "IMGS_height example_assets i = 48"
  "PIPE_TOP_mask example_assets = [(0, 639)]"
  "PIPE_BOTTOM_mask example_assets = [(10, 0)]"
  "PIPE_width example_assets = 104"
  "PIPE_height example_assets = 640"
  by (simp_all add: example_assets_def)

lemmas run_simps = tick_def tick_to_reward_def pipes_phase_def agents_loop_def agent_body_def
  move_and_decide_def observation_def Bird_move_def displacement_def Bird_jump_def Bird_draw_def
  collide_scan.simps collide_def get_mask_def overlap_def py_round_def pipe_ind_def
  reward_and_spawn_def remove_rem_def oob_scan.simps out_of_bounds_def penalise_and_pop_def
  pop_def Pipe_move_def Pipe_init_def set_height_def example_assets_fields
  Bird_init_def Let_def FLOOR_def GAP_def VEL_def MAX_ROTATION_def ROT_VEL_def ANIMATION_TIME_def
  to_double_def fl_add_def fl_sub_def expo_def pow2_def floor_log2.simps

lemma after_pass_aligned: "aligned after_pass"
  by (simp add: aligned_def after_pass_def)

lemma before_pass_aligned: "aligned before_pass"
  by (simp add: aligned_def before_pass_def)

lemma approach_aligned: "aligned approach"
  by (simp add: aligned_def approach_def)

lemma agents_fold:
  "n \<le> length (birds st) \<Longrightarrow>
   length (birds (fold (agent_body t) [0..<n] st)) = length (birds st) \<and>
   (\<forall>x < length (birds st). birds (fold (agent_body t) [0..<n] st) ! x =
       (if x < n then move_and_decide (nets st ! x) t (birds st ! x) else birds st ! x)) \<and>
   nets (fold (agent_body t) [0..<n] st) = nets st \<and>
   ge (fold (agent_body t) [0..<n] st) = ge st \<and>
   pipes (fold (agent_body t) [0..<n] st) = pipes st \<and>
   score (fold (agent_body t) [0..<n] st) = score st"
proof (induction n)
  case 0
  then show ?case by simp
next
  case (Suc n)
  then show ?case
    by (auto simp: agent_body_def nth_list_update)
qed

lemma agent_body_fitness:
  "fitness (agent_body t x s) g =
     (if g = ge s ! x then fl_add (fitness s g) (to_double (1 / 10)) else fitness s g)"
  by (simp add: agent_body_def)

lemma agents_fold_fitness:
  "n \<le> length (ge st) \<Longrightarrow> n \<le> length (birds st) \<Longrightarrow> distinct (ge st) \<Longrightarrow>
   fitness (fold (agent_body t) [0..<n] st) g =
     (if g \<in> set (take n (ge st)) then fl_add (fitness st g) (to_double (1 / 10))
      else fitness st g)"
proof (induction n arbitrary: g)
  case 0
  then show ?case by simp
next
  case (Suc n)
  have n: "n < length (ge st)" using Suc.prems(1) by simp
  have ih: "fitness (fold (agent_body t) [0..<n] st) h =
     (if h \<in> set (take n (ge st)) then fl_add (fitness st h) (to_double (1 / 10))
      else fitness st h)" for h
    using Suc.IH [of h] Suc.prems by simp
  have ge: "ge (fold (agent_body t) [0..<n] st) = ge st"
    using agents_fold [of n st t] Suc.prems(2) by simp
  have new: "ge st ! n \<notin> set (take n (ge st))"
  proof
    assume "ge st ! n \<in> set (take n (ge st))"
    then obtain i where "i < n" "ge st ! i = ge st ! n"
      using n by (auto simp: in_set_conv_nth)
    then show False
      using Suc.prems(3) n by (simp add: nth_eq_iff_index_eq)
  qed
  have tk: "set (take (Suc n) (ge st)) = insert (ge st ! n) (set (take n (ge st)))"
    using n by (simp add: take_Suc_conv_app_nth)
  have "fitness (fold (agent_body t) [0..<Suc n] st) g =
      fitness (agent_body t n (fold (agent_body t) [0..<n] st)) g"
    by simp
  also have "\<dots> = (if g = ge st ! n
      then fl_add (fitness (fold (agent_body t) [0..<n] st) g) (to_double (1 / 10))
      else fitness (fold (agent_body t) [0..<n] st) g)"
    unfolding agent_body_fitness ge ..
  finally show ?case
    unfolding tk using ih [of g] new by auto
qed

lemma agents_loop_frame [simp]:
  "length (birds (agents_loop t st)) = length (birds st)"
  "nets (agents_loop t st) = nets st"
  "ge (agents_loop t st) = ge st"
  "pipes (agents_loop t st) = pipes st"
  "score (agents_loop t st) = score st"
  using agents_fold [of "length (birds st)" st t] by (simp_all add: agents_loop_def)

lemma agents_loop_nth:
  "x < length (birds st) \<Longrightarrow>
   birds (agents_loop t st) ! x = move_and_decide (nets st ! x) t (birds st ! x)"
  using agents_fold [of "length (birds st)" st t] by (simp add: agents_loop_def)

lemma agents_loop_fitness:
  assumes "aligned st"
  shows "fitness (agents_loop t st) g =
           (if g \<in> set (ge st) then fl_add (fitness st g) (to_double (1 / 10))
            else fitness st g)"
proof -
  have len: "length (birds st) = length (ge st)" and d: "distinct (ge st)"
    using assms by (simp_all add: aligned_def)
  show ?thesis
    using agents_fold_fitness [of "length (birds st)" st t g] len d
    by (simp add: agents_loop_def)
qed

lemma agents_loop_aligned: "aligned st \<Longrightarrow> aligned (agents_loop t st)"
  by (simp add: aligned_def)

lemma move_and_decide_x [simp]: "bird_x (move_and_decide n t b) = bird_x b"
  by (simp add: move_and_decide_def Bird_move_def Bird_jump_def Let_def)

lemma agents_loop_x:
  "x < length (birds st) \<Longrightarrow> bird_x (birds (agents_loop t st) ! x) = bird_x (birds st ! x)"
  by (simp add: agents_loop_nth)

lemma jump_ne: "Bird_jump (Bird_move b) \<noteq> Bird_move b"
proof
  assume "Bird_jump (Bird_move b) = Bird_move b"
  then have "tick_count (Bird_jump (Bird_move b)) = tick_count (Bird_move b)" by simp
  then show False by (simp add: Bird_jump_def Bird_move_def Let_def)
qed

lemma reward_fold:
  "distinct gs \<Longrightarrow>
   fold (\<lambda>g f. f(g := fl_add (f g) 5)) gs f0 g =
     (if g \<in> set gs then fl_add (f0 g) 5 else f0 g)"
  by (induction gs arbitrary: f0) auto

section \<open>The first loop: target pipe, observation and jump decision\<close>

text \<open>
  C1 (as the code has it). In every tick all agents are shown the same pipe,
  \<open>pipes ! pipe_ind\<close>: the first pipe, unless a second pipe exists and the first
  agent is strictly to the right of the first pipe's right edge
  (\<open>pipe_x + PIPE_width < bird_x\<close>), in which case it is the second. The index is in
  range when the list is not empty, and agent \<open>x\<close> is moved and then decides on the
  observation built from that pipe. The passed flag plays no part in the choice.
\<close>

theorem target_pipe_selection:
  assumes "x < length (birds st)"
  shows "pipe_ind A (birds st) (pipes st) =
           (if 1 < length (pipes st) \<and>
               pipe_x (pipes st ! 0) + PIPE_width A < bird_x (birds st ! 0) then 1 else 0) \<and>
         (pipes st \<noteq> [] \<longrightarrow> pipe_ind A (birds st) (pipes st) < length (pipes st)) \<and>
         birds (agents_loop (pipes st ! pipe_ind A (birds st) (pipes st)) st) ! x =
           (let b = Bird_move (birds st ! x);
                target = pipes st ! pipe_ind A (birds st) (pipes st)
            in if (nets st ! x)
                    (bird_y b, \<bar>bird_y b - of_int (pipe_height target)\<bar>,
                     \<bar>bird_y b - of_int (pipe_bottom target)\<bar>) > 1 / 2
               then Bird_jump b else b)"
  using assms
  by (auto simp: agents_loop_nth pipe_ind_def move_and_decide_def observation_def Let_def)

text \<open>
  C1, witness: a cohort of one bird at the spawn position and the pipe list right
  after a pass, where the first pipe is at 225 (its right edge at 329) and the new one
  at 600. The index is 0 and the bird is moved and does not jump.
\<close>

theorem target_pipe_selection_witness:
  "pipe_ind example_assets (birds after_pass) (pipes after_pass) = 0 \<and>
   birds (agents_loop (pipes after_pass ! 0) after_pass) ! 0 = Bird_move (Bird_init 230 350)"
  using target_pipe_selection [of 0 after_pass example_assets]
  by (simp add: after_pass_def pipe_ind_def Pipe_init_def set_height_def
      example_assets_fields Bird_init_def Let_def)

text \<open>
  C1, counterexample to the rule as the specification words it: in that state the first
  pipe's passed flag is true and a second pipe exists, so the specification's rule
  gives index 1, and the code uses index 0.
\<close>

theorem target_pipe_counterexample:
  "pipe_ind example_assets (birds after_pass) (pipes after_pass) = 0 \<and>
   currentTargetFor_spec (pipes after_pass) = 1"
  by (simp add: after_pass_def pipe_ind_def currentTargetFor_spec_def Pipe_init_def
      set_height_def example_assets_fields Bird_init_def)

text \<open>
  C3 (as the code has it). For every agent of the cohort the first loop moves the bird
  and calls \<open>jump\<close> exactly when the network's output is strictly greater than 0.5;
  at 0.5 and below the bird is only moved.
\<close>

theorem jump_threshold_strict:
  assumes "x < length (birds st)"
  shows "(birds (agents_loop target st) ! x = Bird_jump (Bird_move (birds st ! x))) =
           ((nets st ! x) (observation (Bird_move (birds st ! x)) target) > 1 / 2) \<and>
         (birds (agents_loop target st) ! x = Bird_move (birds st ! x)) =
           ((nets st ! x) (observation (Bird_move (birds st ! x)) target) \<le> 1 / 2)"
  using assms jump_ne [of "birds st ! x"]
  by (auto simp: agents_loop_nth move_and_decide_def Let_def)

text \<open>C3, witness: the network of \<open>after_pass\<close> answers 0, and the bird does not jump.\<close>

theorem jump_threshold_strict_witness:
  "birds (agents_loop (pipes after_pass ! 0) after_pass) ! 0 = Bird_move (Bird_init 230 350) \<and>
   birds (agents_loop (pipes after_pass ! 0) after_pass) ! 0 \<noteq>
     Bird_jump (Bird_move (Bird_init 230 350))"
  using jump_threshold_strict [of 0 after_pass "pipes after_pass ! 0"]
  by (auto simp: after_pass_def)

text \<open>
  C3, counterexample: a network whose output is exactly 0.5 meets the threshold of the
  claim (0.5 \<open>\<ge>\<close> 0.5), and the bird does not jump.
\<close>

theorem jump_threshold_counterexample:
  "(1 / 2 :: real) \<ge> 1 / 2 \<and>
   move_and_decide (\<lambda>_. 1 / 2) (Pipe_init example_assets 600 100) (Bird_init 230 350) =
     Bird_move (Bird_init 230 350) \<and>
   move_and_decide (\<lambda>_. 1 / 2) (Pipe_init example_assets 600 100) (Bird_init 230 350) \<noteq>
     Bird_jump (Bird_move (Bird_init 230 350))"
  using jump_ne [of "Bird_init 230 350"]
  by (simp add: move_and_decide_def Let_def)

section \<open>The gap of a pipe\<close>

lemma Pipe_move_funpow:
  "pipe_height ((Pipe_move ^^ n) p) = pipe_height p \<and>
   pipe_top ((Pipe_move ^^ n) p) = pipe_top p \<and>
   pipe_bottom ((Pipe_move ^^ n) p) = pipe_bottom p \<and>
   passed ((Pipe_move ^^ n) p) = passed p \<and>
   pipe_x ((Pipe_move ^^ n) p) = pipe_x p - int n * VEL"
  by (induction n) (simp_all add: Pipe_move_def algebra_simps)

text \<open>
  C2. For every pipe created with a random height \<open>r\<close> in \<open>[50, 450)\<close>, at creation and
  after any number of moves: the bottom extent minus the top extent is exactly GAP,
  where the top extent is \<open>height\<close>, the lower edge of the top piece and the value
  the observation uses, and the bottom extent is \<open>bottom\<close>; the top extent lies in
  \<open>[50, 450)\<close> and the bottom extent in \<open>[50 + GAP, 450 + GAP)\<close>, both inside the spawn
  band extended by the gap size. The field \<open>top\<close> is something else, the drawing
  position of the top image: \<open>height\<close> minus the image height, so that
  \<open>bottom - top\<close> is GAP plus the image height.
\<close>

theorem gap_invariant:
  assumes "50 \<le> r" "r < 450"
  shows "pipe_bottom ((Pipe_move ^^ n) (Pipe_init A x0 r)) -
           pipe_height ((Pipe_move ^^ n) (Pipe_init A x0 r)) = GAP \<and>
         pipe_bottom ((Pipe_move ^^ n) (Pipe_init A x0 r)) -
           pipe_top ((Pipe_move ^^ n) (Pipe_init A x0 r)) = GAP + PIPE_height A \<and>
         50 \<le> pipe_height ((Pipe_move ^^ n) (Pipe_init A x0 r)) \<and>
         pipe_height ((Pipe_move ^^ n) (Pipe_init A x0 r)) < 450 \<and>
         50 + GAP \<le> pipe_bottom ((Pipe_move ^^ n) (Pipe_init A x0 r)) \<and>
         pipe_bottom ((Pipe_move ^^ n) (Pipe_init A x0 r)) < 450 + GAP"
  using assms by (simp add: Pipe_move_funpow Pipe_init_def set_height_def)

text \<open>C2, witness: the pipe drawn at 50 with a pipe image of height 640, after three moves.\<close>

theorem gap_invariant_witness:
  "pipe_bottom ((Pipe_move ^^ 3) (Pipe_init example_assets 600 50)) = 250 \<and>
   pipe_height ((Pipe_move ^^ 3) (Pipe_init example_assets 600 50)) = 50 \<and>
   pipe_top ((Pipe_move ^^ 3) (Pipe_init example_assets 600 50)) = - 590 \<and>
   GAP = 200"
  using gap_invariant [of 50 3 example_assets 600]
  by (simp add: GAP_def example_assets_fields Pipe_move_funpow Pipe_init_def set_height_def)

section \<open>Collision and visual state\<close>

text \<open>
  C7 (as the code has it). The collision test reads the position of the bird and its
  current image, nothing else: two birds with the same x, the same y and the same
  current image collide with the same pipes, whatever their tilt, frame counter,
  velocity and tick counter.
\<close>

theorem collide_visual_independence:
  assumes "bird_x b1 = bird_x b2" "bird_y b1 = bird_y b2" "img b1 = img b2"
  shows "collide A p b1 = collide A p b2"
  using assms by (simp add: collide_def get_mask_def)

text \<open>C7, witness: two birds on frame 1 that differ in tilt and frame counter.\<close>

theorem collide_visual_independence_witness:
  "collide example_assets (Pipe_init example_assets 221 151) ((Bird_init 230 350)\<lparr>img := 1\<rparr>) \<and>
   collide example_assets (Pipe_init example_assets 221 151)
     ((Bird_init 230 350)\<lparr>img := 1, img_count := 7, tilt := - 35\<rparr>)"
  using collide_visual_independence [of "(Bird_init 230 350)\<lparr>img := 1\<rparr>"
      "(Bird_init 230 350)\<lparr>img := 1, img_count := 7, tilt := - 35\<rparr>"
      example_assets "Pipe_init example_assets 221 151"]
  by (simp add: collide_def get_mask_def overlap_def py_round_def Pipe_init_def set_height_def
      example_assets_def Bird_init_def GAP_def)

text \<open>
  C7, counterexample: two birds with the same x, y, velocity and tick counter, one on
  frame 0 and one on frame 1 of the animation; the masks of the frames differ, and
  only the second collides with the pipe.
\<close>

theorem collide_visual_counterexample:
  "bird_x (Bird_init 230 350) = bird_x ((Bird_init 230 350)\<lparr>img := 1, img_count := 7\<rparr>) \<and>
   bird_y (Bird_init 230 350) = bird_y ((Bird_init 230 350)\<lparr>img := 1, img_count := 7\<rparr>) \<and>
   vel (Bird_init 230 350) = vel ((Bird_init 230 350)\<lparr>img := 1, img_count := 7\<rparr>) \<and>
   tick_count (Bird_init 230 350) = tick_count ((Bird_init 230 350)\<lparr>img := 1, img_count := 7\<rparr>) \<and>
   \<not> collide example_assets (Pipe_init example_assets 221 151) (Bird_init 230 350) \<and>
   collide example_assets (Pipe_init example_assets 221 151)
     ((Bird_init 230 350)\<lparr>img := 1, img_count := 7\<rparr>)"
  by (simp add: collide_def get_mask_def overlap_def py_round_def Pipe_init_def set_height_def
      example_assets_def Bird_init_def GAP_def)

lemma kill_scan_kept:
  assumes "x < length (birds st)" "length (ge st) = length (birds st)" "\<not> P (birds st ! x)"
  shows "ge st ! x \<in> set (ge (kill_scan P x st))"
proof -
  have eq: "kill_scan P x st = kill_scan P (Suc x) st"
    using assms(1,3) by (subst kill_scan.simps) simp
  have tk: "take (Suc x) (ge (kill_scan P (Suc x) st)) = take (Suc x) (ge st)"
    using kill_scan_take [of "Suc x" P st] by simp
  have "ge st ! x \<in> set (take (Suc x) (ge st))"
    using assms(1,2) by (simp add: take_Suc_conv_app_nth)
  then show ?thesis
    unfolding eq using tk by (metis in_set_takeD)
qed

section \<open>The out-of-bounds scan\<close>

text \<open>
  C9 (as the code has it). The test is true exactly when the vertical position plus the
  height of the current image is at or beyond the floor line (\<open>\<ge> 730\<close>), or the
  position is negative. When the scan examines the agent at index \<open>x\<close> and the test
  is true, the agent leaves the cohort and 1 is subtracted from its fitness (one
  floating-point subtraction); when it is false the agent stays with its fitness.
  Every agent the scan removes was out of bounds and had 1 subtracted once; the birds
  that stay are unchanged, and so are pipes and score.
\<close>

theorem out_of_bounds_check:
  assumes "aligned st" "x < length (birds st)"
  shows "out_of_bounds A b =
           (730 \<le> bird_y b + of_int (IMGS_height A (img b)) \<or> bird_y b < 0) \<and>
         (out_of_bounds A (birds st ! x) \<longrightarrow>
            ge st ! x \<notin> set (ge (oob_scan A x st)) \<and>
            fitness (oob_scan A x st) (ge st ! x) = fl_sub (fitness st (ge st ! x)) 1) \<and>
         (\<not> out_of_bounds A (birds st ! x) \<longrightarrow>
            ge st ! x \<in> set (ge (oob_scan A x st)) \<and>
            fitness (oob_scan A x st) (ge st ! x) = fitness st (ge st ! x)) \<and>
         (\<forall>i<length (birds st). ge st ! i \<notin> set (ge (oob_scan A x st)) \<longrightarrow>
            out_of_bounds A (birds st ! i) \<and>
            fitness (oob_scan A x st) (ge st ! i) = fl_sub (fitness st (ge st ! i)) 1) \<and>
         set (zip (birds (oob_scan A x st)) (ge (oob_scan A x st))) \<subseteq>
           set (zip (birds st) (ge st)) \<and>
         pipes (oob_scan A x st) = pipes st \<and> score (oob_scan A x st) = score st"
proof -
  let ?P = "out_of_bounds A"
  have len: "length (ge st) = length (birds st)"
    using assms(1) by (simp add: aligned_def)
  have fit: "fitness (kill_scan ?P x st) g =
      (if g \<in> set (ge st) \<and> g \<notin> set (ge (kill_scan ?P x st))
       then fl_sub (fitness st g) 1 else fitness st g)" for g
    using assms(1) by (rule kill_scan_fitness)
  have mem: "ge st ! i \<in> set (ge st)" if "i < length (birds st)" for i
    using that len by simp
  have 1: "out_of_bounds A b = (730 \<le> bird_y b + of_int (IMGS_height A (img b)) \<or> bird_y b < 0)"
    by (simp add: out_of_bounds_def FLOOR_def)
  have 2: "?P (birds st ! x) \<longrightarrow>
      ge st ! x \<notin> set (ge (kill_scan ?P x st)) \<and>
      fitness (kill_scan ?P x st) (ge st ! x) = fl_sub (fitness st (ge st ! x)) 1"
    using kill_scan_examined [OF assms, of ?P] fit [of "ge st ! x"] mem [OF assms(2)] by simp
  have 3: "\<not> ?P (birds st ! x) \<longrightarrow>
      ge st ! x \<in> set (ge (kill_scan ?P x st)) \<and>
      fitness (kill_scan ?P x st) (ge st ! x) = fitness st (ge st ! x)"
    using kill_scan_kept [OF assms(2) len, of ?P] fit [of "ge st ! x"] by simp
  have 4: "\<forall>i<length (birds st). ge st ! i \<notin> set (ge (kill_scan ?P x st)) \<longrightarrow>
      ?P (birds st ! i) \<and> fitness (kill_scan ?P x st) (ge st ! i) = fl_sub (fitness st (ge st ! i)) 1"
  proof (intro allI impI)
    fix i assume i: "i < length (birds st)" and out: "ge st ! i \<notin> set (ge (kill_scan ?P x st))"
    have "(birds st ! i, ge st ! i) \<in> set (zip (birds st) (ge st))"
      using i len by (auto simp: set_zip)
    then have "?P (birds st ! i)"
      using kill_scan_removed [OF assms(1) _ out] by blast
    then show "?P (birds st ! i) \<and>
        fitness (kill_scan ?P x st) (ge st ! i) = fl_sub (fitness st (ge st ! i)) 1"
      using fit [of "ge st ! i"] mem [OF i] out by simp
  qed
  show ?thesis
    unfolding oob_scan_kill
    using 1 2 3 4 kill_scan_zip [OF assms(1), of ?P x] kill_scan_frame [of ?P x st]
    by blast
qed

lemma three_fallen_aligned: "aligned three_fallen"
  by (simp add: aligned_def three_fallen_def)

text \<open>C9, witness: the first of the three fallen birds is removed with a penalty of 1.\<close>

theorem out_of_bounds_check_witness:
  "out_of_bounds example_assets (birds three_fallen ! 0) \<and>
   0 \<notin> set (ge (oob_scan example_assets 0 three_fallen)) \<and>
   fitness (oob_scan example_assets 0 three_fallen) 0 = - 1"
  using out_of_bounds_check [OF three_fallen_aligned, of 0 example_assets]
  by (simp add: three_fallen_def out_of_bounds_def Bird_init_def FLOOR_def example_assets_fields
      fl_sub_def to_double_int)

text \<open>
  C9, counterexample: a bird at 682 with an image of height 48 touches the floor line
  (682 + 48 = 730). The code's test is true, the test in the specification's words
  (exceeds) is false.
\<close>

theorem out_of_bounds_counterexample:
  "out_of_bounds example_assets (Bird_init 230 682) \<and>
   \<not> isOutOfBounds_spec example_assets (Bird_init 230 682)"
  by (simp add: out_of_bounds_def isOutOfBounds_spec_def Bird_init_def FLOOR_def
      example_assets_fields)

section \<open>Popping while enumerating\<close>

text \<open>
  C10 (as the code has it). In both scans, when the scan examines the agent at index
  \<open>x\<close>, that agent satisfies the death condition and another agent follows it, then
  the first is removed and the agent that was immediately after it is not examined
  in that pass: when the pass ends it is in the cohort, at index \<open>x\<close>, with its
  fitness untouched, whether or not it satisfies the death condition itself.
\<close>

theorem pop_while_enumerate_skip:
  assumes "aligned st" "Suc x < length (birds st)"
  shows "(out_of_bounds A (birds st ! x) \<longrightarrow>
            ge st ! x \<notin> set (ge (oob_scan A x st)) \<and>
            x < length (birds (oob_scan A x st)) \<and>
            birds (oob_scan A x st) ! x = birds st ! Suc x \<and>
            ge (oob_scan A x st) ! x = ge st ! Suc x \<and>
            fitness (oob_scan A x st) (ge st ! Suc x) = fitness st (ge st ! Suc x)) \<and>
         (collide A p (birds st ! x) \<longrightarrow>
            ge st ! x \<notin> set (ge (snd (snd (collide_scan A x p add_pipe st)))) \<and>
            x < length (birds (snd (snd (collide_scan A x p add_pipe st)))) \<and>
            birds (snd (snd (collide_scan A x p add_pipe st))) ! x = birds st ! Suc x \<and>
            ge (snd (snd (collide_scan A x p add_pipe st))) ! x = ge st ! Suc x \<and>
            fitness (snd (snd (collide_scan A x p add_pipe st))) (ge st ! Suc x) =
              fitness st (ge st ! Suc x))"
proof -
  have x: "x < length (birds st)" using assms(2) by simp
  have general: "ge st ! x \<notin> set (ge (kill_scan P x st)) \<and>
      x < length (birds (kill_scan P x st)) \<and>
      birds (kill_scan P x st) ! x = birds st ! Suc x \<and>
      ge (kill_scan P x st) ! x = ge st ! Suc x \<and>
      fitness (kill_scan P x st) (ge st ! Suc x) = fitness st (ge st ! Suc x)"
    if P: "P (birds st ! x)" for P
  proof -
    note skip = kill_scan_skip [of st x P, OF assms P]
    have "length (ge (kill_scan P x st)) = length (birds (kill_scan P x st))"
      using kill_scan_aligned [OF assms(1), of P x] by (simp add: aligned_def)
    then have lenx: "x < length (ge (kill_scan P x st))"
      using skip by simp
    have geq: "ge (kill_scan P x st) ! x = ge st ! Suc x"
      using skip by blast
    have "ge st ! Suc x \<in> set (ge (kill_scan P x st))"
      using nth_mem [OF lenx] unfolding geq .
    then have "fitness (kill_scan P x st) (ge st ! Suc x) = fitness st (ge st ! Suc x)"
      using kill_scan_fitness [OF assms(1), of P x "ge st ! Suc x"] by simp
    then show ?thesis
      using skip kill_scan_examined [of st x P, OF assms(1) x P] by simp
  qed
  show ?thesis
    unfolding oob_scan_kill collide_scan_state
    using general [of "out_of_bounds A"] general [of "collide A p"] by blast
qed

text \<open>
  C10, counterexample: three birds below the floor. The agents at the consecutive
  indices 1 and 2 both satisfy the death condition, and it is the first of the two
  that is skipped and stays while the second is removed, because the agent at index
  0 was removed before them.
\<close>

theorem pop_while_enumerate_counterexample:
  "out_of_bounds example_assets (birds three_fallen ! 1) \<and>
   out_of_bounds example_assets (birds three_fallen ! 2) \<and>
   ge three_fallen = [0, 1, 2] \<and>
   ge (oob_scan example_assets 0 three_fallen) = [1]"
  by (simp add: oob_scan.simps three_fallen_def out_of_bounds_def Bird_init_def FLOOR_def
      example_assets_fields penalise_and_pop_def pop_def)

text \<open>C10, witness: the scan of the three fallen birds from index 0.\<close>

theorem pop_while_enumerate_skip_witness:
  "out_of_bounds example_assets (birds three_fallen ! 0) \<and>
   ge (oob_scan example_assets 0 three_fallen) ! 0 = 1 \<and>
   fitness (oob_scan example_assets 0 three_fallen) 1 = 0 \<and>
   0 \<notin> set (ge (oob_scan example_assets 0 three_fallen))"
  using pop_while_enumerate_skip [OF three_fallen_aligned, of 0 example_assets]
  by (simp add: three_fallen_def out_of_bounds_def Bird_init_def FLOOR_def example_assets_fields)

lemma pipes_loop_nonempty:
  "k < length ps \<Longrightarrow> \<not> passed (ps ! k) \<Longrightarrow>
   passed (fst (pipes_loop A ps add_pipe st) ! k) \<Longrightarrow>
   birds (snd (snd (pipes_loop A (take k ps) add_pipe st))) \<noteq> []"
proof (induction ps arbitrary: k add_pipe st)
  case Nil
  then show ?case by simp
next
  case (Cons p ps)
  obtain p' a' st' where r: "collide_scan A 0 (Pipe_move p) add_pipe st = (p', a', st')"
    by (cases "collide_scan A 0 (Pipe_move p) add_pipe st") auto
  obtain ps' a'' st'' where r2: "pipes_loop A ps a' st' = (ps', a'', st'')"
    by (cases "pipes_loop A ps a' st'") auto
  have eq: "pipes_loop A (p # ps) add_pipe st = (p' # ps', a'', st'')"
    using r r2 by simp
  show ?case
  proof (cases k)
    case 0
    have "birds st \<noteq> []"
    proof
      assume "birds st = []"
      then have "collide_scan A 0 (Pipe_move p) add_pipe st = (Pipe_move p, add_pipe, st)"
        by (subst collide_scan.simps) simp
      then have "p' = Pipe_move p" using r by simp
      then have "passed p' = passed p" by (simp add: Pipe_move_def)
      then show False using Cons.prems(2,3) 0 unfolding eq by simp
    qed
    then show ?thesis using 0 by simp
  next
    case (Suc j)
    have "birds (snd (snd (pipes_loop A (take j ps) a' st'))) \<noteq> []"
      using Cons.IH [of j a' st'] Cons.prems Suc r2 unfolding eq by simp
    then show ?thesis using Suc r by (auto split: prod.splits)
  qed
qed

lemma agents_loop_same_x:
  assumes "\<forall>b \<in> set (birds st). bird_x b = bx"
  shows "\<forall>b \<in> set (birds (agents_loop t st)). bird_x b = bx"
proof
  fix b assume "b \<in> set (birds (agents_loop t st))"
  then obtain i where i: "i < length (birds st)" "birds (agents_loop t st) ! i = b"
    by (auto simp: in_set_conv_nth)
  then have "bird_x b = bird_x (birds st ! i)"
    using agents_loop_x [of i st t] by simp
  then show "bird_x b = bx" using assms i(1) by simp
qed

lemma tick_to_reward_unfold:
  "tick_to_reward A st =
     (fst (snd (pipes_loop A (pipes st) False
         (agents_loop (pipes st ! pipe_ind A (birds st) (pipes st)) st))),
      (snd (snd (pipes_loop A (pipes st) False
         (agents_loop (pipes st ! pipe_ind A (birds st) (pipes st)) st))))
        \<lparr>pipes := fst (pipes_loop A (pipes st) False
         (agents_loop (pipes st ! pipe_ind A (birds st) (pipes st)) st))\<rparr>)"
  by (simp add: tick_to_reward_def pipes_phase_def split: prod.splits)

lemma reward_and_spawn_pipes:
  "pipes (reward_and_spawn A r add_pipe st) =
     pipes st @ (if add_pipe then [Pipe_init A 600 r] else [])"
  by (simp add: reward_and_spawn_def)

lemma tick_to_reward_ge_subset:
  assumes "aligned st"
  shows "set (ge (snd (tick_to_reward A st))) \<subseteq> set (ge st)"
proof -
  define st1 where "st1 = agents_loop (pipes st ! pipe_ind A (birds st) (pipes st)) st"
  have al1: "aligned st1"
    unfolding st1_def using assms by (rule agents_loop_aligned)
  have "dies_only st1 (snd (snd (pipes_loop A (pipes st) False st1)))"
    using al1 by (rule pipes_loop_dies_only)
  then show ?thesis
    unfolding tick_to_reward_unfold st1_def [symmetric]
    by (simp add: dies_only_def st1_def)
qed

section \<open>Passing a pipe\<close>

lemma tick_to_reward_flags:
  assumes "tick_to_reward A st = (add_pipe, st2)"
    and "\<forall>b \<in> set (birds st). bird_x b = bx"
  shows "length (pipes st2) = length (pipes st) \<and>
         (\<forall>k<length (pipes st).
            pipe_x (pipes st2 ! k) = pipe_x (pipes st ! k) - VEL \<and>
            (passed (pipes st ! k) \<longrightarrow> passed (pipes st2 ! k)) \<and>
            ((\<not> passed (pipes st ! k) \<and> passed (pipes st2 ! k)) =
             (\<not> passed (pipes st ! k) \<and> pipe_x (pipes st ! k) - VEL < bx \<and>
              cohort_at A k st \<noteq> []))) \<and>
         add_pipe = (\<exists>k<length (pipes st). \<not> passed (pipes st ! k) \<and> passed (pipes st2 ! k))"
proof -
  define st1 where "st1 = agents_loop (pipes st ! pipe_ind A (birds st) (pipes st)) st"
  define ps where "ps = pipes st"
  define ps' where "ps' = fst (pipes_loop A ps False st1)"
  have add: "add_pipe = fst (snd (pipes_loop A ps False st1))"
    and st2: "pipes st2 = ps'"
    using assms(1) unfolding tick_to_reward_unfold st1_def ps_def ps'_def by auto
  have same: "\<forall>b \<in> set (birds st1). bird_x b = bx"
    unfolding st1_def using assms(2) by (rule agents_loop_same_x)
  note fl = pipes_loop_flags [of A ps False st1, folded ps'_def]
  have len: "length ps' = length ps" using fl by blast
  have addeq: "add_pipe = (\<exists>k<length ps. \<not> passed (ps ! k) \<and> passed (ps' ! k))"
    unfolding add using fl by simp
  have each: "pipe_x (ps' ! k) = pipe_x (ps ! k) - VEL \<and>
      (passed (ps ! k) \<longrightarrow> passed (ps' ! k)) \<and>
      ((\<not> passed (ps ! k) \<and> passed (ps' ! k)) =
       (\<not> passed (ps ! k) \<and> pipe_x (ps ! k) - VEL < bx \<and> cohort_at A k st \<noteq> []))"
    if k: "k < length ps" for k
  proof -
    have c: "cohort_at A k st = birds (snd (snd (pipes_loop A (take k ps) False st1)))"
      by (simp add: cohort_at_def st1_def ps_def)
    have 1: "pipe_x (ps' ! k) = pipe_x (ps ! k) - VEL" "passed (ps ! k) \<longrightarrow> passed (ps' ! k)"
      and 2: "\<not> passed (ps ! k) \<and> passed (ps' ! k) \<longrightarrow>
         (\<exists>b \<in> set (birds st1). pipe_x (ps ! k) - VEL < bird_x b)"
      using fl k by blast+
    have 3: "\<not> passed (ps ! k) \<and> passed (ps' ! k) \<longrightarrow> pipe_x (ps ! k) - VEL < bx"
      using 2 same by auto
    have 4: "\<not> passed (ps ! k) \<and> passed (ps' ! k) \<longrightarrow> cohort_at A k st \<noteq> []"
      unfolding c ps'_def using pipes_loop_nonempty [OF k, of A False st1] by blast
    have 5: "pipe_x (ps ! k) - VEL < bx \<and> cohort_at A k st \<noteq> [] \<longrightarrow> passed (ps' ! k)"
      unfolding c ps'_def using pipes_loop_complete [OF same k, of A False] by blast
    show ?thesis using 1 3 4 5 by blast
  qed
  show ?thesis
    unfolding st2
    using len addeq each unfolding ps_def [symmetric] by simp
qed

text \<open>
  C4. In the tick that starts in \<open>st\<close>, with every bird at the same horizontal position
  \<open>bx\<close> (they are all created at 230 and never move sideways): no pipe leaves or
  enters the list before the reward step and each is moved by VEL; a passed flag that
  is true stays true; the flag of pipe \<open>k\<close> turns from false to true in this tick
  exactly when the pipe, once moved, is behind the birds (\<open>pipe_x - VEL < bx\<close>) and a
  bird is left in the cohort when the pipe is scanned; the signal \<open>add_pipe\<close> is
  raised exactly when some flag has turned in this tick; and the reward step appends
  exactly one new pipe when the signal is raised and none otherwise, however many
  birds and pipes were involved.
\<close>

theorem pass_then_spawn:
  assumes "tick_to_reward A st = (add_pipe, st2)"
    and "\<forall>b \<in> set (birds st). bird_x b = bx"
  shows "length (pipes st2) = length (pipes st) \<and>
         (\<forall>k<length (pipes st).
            pipe_x (pipes st2 ! k) = pipe_x (pipes st ! k) - VEL \<and>
            (passed (pipes st ! k) \<longrightarrow> passed (pipes st2 ! k)) \<and>
            ((\<not> passed (pipes st ! k) \<and> passed (pipes st2 ! k)) =
             (\<not> passed (pipes st ! k) \<and> pipe_x (pipes st ! k) - VEL < bx \<and>
              cohort_at A k st \<noteq> []))) \<and>
         add_pipe = (\<exists>k<length (pipes st). \<not> passed (pipes st ! k) \<and> passed (pipes st2 ! k)) \<and>
         pipes (reward_and_spawn A r add_pipe st2) =
           pipes st2 @ (if add_pipe then [Pipe_init A 600 r] else []) \<and>
         length (pipes (reward_and_spawn A r add_pipe st2)) =
           length (pipes st) + (if add_pipe then 1 else 0)"
proof -
  note flags = tick_to_reward_flags [OF assms]
  have len: "length (pipes st2) = length (pipes st)"
    using flags by blast
  have spawn: "pipes (reward_and_spawn A r add_pipe st2) =
      pipes st2 @ (if add_pipe then [Pipe_init A 600 r] else [])"
    by (rule reward_and_spawn_pipes)
  have "length (pipes (reward_and_spawn A r add_pipe st2)) =
      length (pipes st) + (if add_pipe then 1 else 0)"
    unfolding spawn using len by simp
  then show ?thesis
    using flags spawn by blast
qed

text \<open>
  C4, witness: in the tick that starts in \<open>before_pass\<close> the pipe moves from 230 to
  225, its flag turns, the signal is raised and one pipe is appended, which gives the
  pipes of \<open>after_pass\<close>.
\<close>

theorem pass_then_spawn_witness:
  "fst (tick_to_reward example_assets before_pass) \<and>
   \<not> passed (pipes before_pass ! 0) \<and>
   passed (pipes (snd (tick_to_reward example_assets before_pass)) ! 0) \<and>
   pipes (reward_and_spawn example_assets 100 (fst (tick_to_reward example_assets before_pass))
            (snd (tick_to_reward example_assets before_pass))) = pipes after_pass"
  using pass_then_spawn [of example_assets before_pass
      "fst (tick_to_reward example_assets before_pass)"
      "snd (tick_to_reward example_assets before_pass)" 230 100]
  by (simp add: run_simps before_pass_def after_pass_def)

text \<open>
  C8. In the tick that starts in \<open>st\<close>: when the signal \<open>add_pipe\<close> is raised, some
  pipe's flag has turned in this tick and that pipe, once moved, is behind a bird that
  was in the cohort at the start of the tick; the reward step adds 1 to the score and
  appends one pipe exactly when the signal is raised; it adds 5 (one floating-point
  addition) to the fitness of every genome that is still in the cohort after the
  collision scans and changes the fitness of no other genome; and no genome is in the cohort then that was not in it
  at the start of the tick.
\<close>

theorem pass_signal_and_reward:
  assumes "aligned st" and "tick_to_reward A st = (add_pipe, st2)"
  shows "(add_pipe \<longrightarrow>
            (\<exists>k<length (pipes st). \<exists>i<length (birds st).
               \<not> passed (pipes st ! k) \<and> passed (pipes st2 ! k) \<and>
               pipe_x (pipes st ! k) - VEL < bird_x (birds st ! i))) \<and>
         score (reward_and_spawn A r add_pipe st2) = score st + (if add_pipe then 1 else 0) \<and>
         pipes (reward_and_spawn A r add_pipe st2) =
           pipes st2 @ (if add_pipe then [Pipe_init A 600 r] else []) \<and>
         (\<forall>g. fitness (reward_and_spawn A r add_pipe st2) g =
            (if add_pipe \<and> g \<in> set (ge st2) then fl_add (fitness st2 g) 5
             else fitness st2 g)) \<and>
         ge (reward_and_spawn A r add_pipe st2) = ge st2 \<and>
         set (ge st2) \<subseteq> set (ge st)"
proof -
  define st1 where "st1 = agents_loop (pipes st ! pipe_ind A (birds st) (pipes st)) st"
  define ps where "ps = pipes st"
  define ps' where "ps' = fst (pipes_loop A ps False st1)"
  define st' where "st' = snd (snd (pipes_loop A ps False st1))"
  have add: "add_pipe = fst (snd (pipes_loop A ps False st1))"
    and st2: "st2 = st'\<lparr>pipes := ps'\<rparr>"
    using assms(2) unfolding tick_to_reward_unfold st1_def ps_def ps'_def st'_def by auto
  have al1: "aligned st1"
    unfolding st1_def using assms(1) by (rule agents_loop_aligned)
  have d: "dies_only st1 st'"
    unfolding st'_def using al1 by (rule pipes_loop_dies_only)
  have ge1: "ge st1 = ge st" "score st1 = score st" by (simp_all add: st1_def)
  have dist: "distinct (ge st2)" and sub: "set (ge st2) \<subseteq> set (ge st)"
    and sc: "score st2 = score st"
    using d ge1 unfolding st2 by (simp_all add: dies_only_def aligned_def)
  note fl = pipes_loop_flags [of A ps False st1, folded ps'_def]
  have 1: "add_pipe \<longrightarrow>
      (\<exists>k<length ps. \<exists>i<length (birds st).
         \<not> passed (ps ! k) \<and> passed (ps' ! k) \<and> pipe_x (ps ! k) - VEL < bird_x (birds st ! i))"
  proof
    assume add_pipe
    then obtain k where k: "k < length ps" "\<not> passed (ps ! k)" "passed (ps' ! k)"
      unfolding add using fl by auto
    then obtain b where b: "b \<in> set (birds st1)" "pipe_x (ps ! k) - VEL < bird_x b"
      using fl by blast
    then obtain i where i: "i < length (birds st)" "birds st1 ! i = b"
      by (auto simp: in_set_conv_nth st1_def)
    have "bird_x (birds st1 ! i) = bird_x (birds st ! i)"
      unfolding st1_def using i(1) by (rule agents_loop_x)
    then have "bird_x b = bird_x (birds st ! i)"
      unfolding i(2) .
    then show "\<exists>k<length ps. \<exists>i<length (birds st).
         \<not> passed (ps ! k) \<and> passed (ps' ! k) \<and> pipe_x (ps ! k) - VEL < bird_x (birds st ! i)"
      using k b i by auto
  qed
  have 2: "fitness (reward_and_spawn A r add_pipe st2) g =
      (if add_pipe \<and> g \<in> set (ge st2) then fl_add (fitness st2 g) 5 else fitness st2 g)" for g
    by (simp add: reward_and_spawn_def reward_fold [OF dist])
  have 3: "score (reward_and_spawn A r add_pipe st2) = score st + (if add_pipe then 1 else 0)"
    "ge (reward_and_spawn A r add_pipe st2) = ge st2"
    using sc by (simp_all add: reward_and_spawn_def)
  have p2: "pipes st2 = ps'" by (simp add: st2)
  show ?thesis
    using 1 2 3 sub reward_and_spawn_pipes [of A r add_pipe st2]
    unfolding ps_def [symmetric] p2 by simp
qed

text \<open>
  C8, witness: in that tick the score goes from 0 to 1 and the genome of the bird, which
  is still in the cohort, has 0.1 for the tick and 5 for the pass: the double 5.1.
\<close>

theorem pass_signal_and_reward_witness:
  "fst (tick_to_reward example_assets before_pass) \<and>
   score (reward_and_spawn example_assets 100 (fst (tick_to_reward example_assets before_pass))
            (snd (tick_to_reward example_assets before_pass))) = 1 \<and>
   fitness (reward_and_spawn example_assets 100 (fst (tick_to_reward example_assets before_pass))
            (snd (tick_to_reward example_assets before_pass))) 7 =
     2871044762448691 / 562949953421312"
  using pass_signal_and_reward [OF before_pass_aligned, of example_assets
      "fst (tick_to_reward example_assets before_pass)"
      "snd (tick_to_reward example_assets before_pass)" 100]
  by (simp add: run_simps before_pass_def)

section \<open>Fitness accounting\<close>

lemma tick_fitness:
  assumes "aligned st" and "tick A r st = Some st'"
  shows "aligned st' \<and> set (ge st') \<subseteq> set (ge st) \<and>
         set (ge st') \<subseteq> set (ge (snd (tick_to_reward A st))) \<and>
         set (ge (snd (tick_to_reward A st))) \<subseteq> set (ge st) \<and>
         fitness st' g = fold apply_event (tick_events A st st' g) (fitness st g)"
proof -
  define st1 where "st1 = agents_loop (pipes st ! pipe_ind A (birds st) (pipes st)) st"
  define ps' where "ps' = fst (pipes_loop A (pipes st) False st1)"
  define sc where "sc = snd (snd (pipes_loop A (pipes st) False st1))"
  define add_pipe where "add_pipe = fst (tick_to_reward A st)"
  define st2 where "st2 = snd (tick_to_reward A st)"
  define st3 where "st3 = reward_and_spawn A r add_pipe st2"
  define st4 where "st4 = remove_rem A (pipes st2) st3"
  define st5 where "st5 = oob_scan A 0 st4"
  have st2: "st2 = sc\<lparr>pipes := ps'\<rparr>"
    unfolding st2_def tick_to_reward_unfold sc_def ps'_def st1_def by simp
  have st': "st' = st5\<lparr>birds := map Bird_draw (birds st5)\<rparr>"
    using assms(2)
    by (simp add: tick_def st5_def st4_def st3_def st2_def add_pipe_def Let_def
        split: if_splits prod.splits)
  have al1: "aligned st1"
    unfolding st1_def using assms(1) by (rule agents_loop_aligned)
  have ge1: "ge st1 = ge st" by (simp add: st1_def)
  have f1: "fitness st1 g =
      (if g \<in> set (ge st) then fl_add (fitness st g) (to_double (1 / 10)) else fitness st g)"
    unfolding st1_def using assms(1) by (rule agents_loop_fitness)
  have d: "dies_only st1 sc"
    unfolding sc_def using al1 by (rule pipes_loop_dies_only)
  have al2: "aligned st2" and ge2: "set (ge st2) \<subseteq> set (ge st)"
    and f2: "fitness st2 g =
      (if g \<in> set (ge st) \<and> g \<notin> set (ge st2) then fl_sub (fitness st1 g) 1 else fitness st1 g)"
    using d ge1 unfolding st2 by (simp_all add: dies_only_def aligned_def)
  have dist: "distinct (ge st2)" using al2 by (simp add: aligned_def)
  have f3: "fitness st3 g =
      (if add_pipe \<and> g \<in> set (ge st2) then fl_add (fitness st2 g) 5 else fitness st2 g)"
    by (simp add: st3_def reward_and_spawn_def reward_fold [OF dist])
  have al4: "aligned st4" and ge4: "ge st4 = ge st2" and f4: "fitness st4 g = fitness st3 g"
    using al2 by (simp_all add: st4_def st3_def remove_rem_def reward_and_spawn_def aligned_def)
  have d5: "dies_only st4 st5"
    unfolding st5_def oob_scan_kill using al4 by (rule kill_scan_dies_only)
  have al5: "aligned st5" and ge5: "set (ge st5) \<subseteq> set (ge st2)"
    and f5: "fitness st5 g =
      (if g \<in> set (ge st2) \<and> g \<notin> set (ge st5) then fl_sub (fitness st4 g) 1 else fitness st4 g)"
    using d5 ge4 by (simp_all add: dies_only_def)
  have al': "aligned st'" and ge': "ge st' = ge st5" and f': "fitness st' g = fitness st5 g"
    using al5 by (simp_all add: st' aligned_def)
  have "fitness st' g = fold apply_event (tick_events A st st' g) (fitness st g)"
    unfolding f' f5 f4 f3 f2 f1 tick_events_def st2_def [symmetric] add_pipe_def [symmetric] ge'
    using ge2 ge5 by auto
  then show ?thesis
    using al' ge' ge5 ge2 unfolding st2_def by auto
qed

lemma tick_events_counts:
  assumes "set (ge st') \<subseteq> set (ge (snd (tick_to_reward A st)))"
    and "set (ge (snd (tick_to_reward A st))) \<subseteq> set (ge st)"
  shows "count_list (tick_events A st st' g) Survived = (if g \<in> set (ge st) then 1 else 0)"
    and "count_list (tick_events A st st' g) Passed =
      (if fst (tick_to_reward A st) \<and> g \<in> set (ge (snd (tick_to_reward A st))) then 1 else 0)"
    and "count_list (tick_events A st st' g) Died =
      (if g \<in> set (ge st) \<and> g \<notin> set (ge st') then 1 else 0)"
    and "g \<notin> set (ge st) \<Longrightarrow> tick_events A st st' g = []"
    and "g \<in> set (ge st) \<Longrightarrow> g \<notin> set (ge st') \<Longrightarrow> last (tick_events A st st' g) = Died"
  using assms by (auto simp: tick_events_def)

text \<open>
  C5 (as the code has it). The fitness is a float, and every update rounds. For a
  cohort whose lists are aligned and any number of passes of the game loop that ends
  in \<open>st'\<close>, the fitness of every genome \<open>g\<close> is its start value with the
  floating-point updates of exactly these events applied in the order in which they
  occurred, and nothing else: one \<open>+ 0.1\<close> for each tick at whose start \<open>g\<close> was in
  the cohort, one \<open>+ 5\<close> for each tick in which a pipe was passed while \<open>g\<close> was still
  in the cohort, and one \<open>- 1\<close> if \<open>g\<close> has left the cohort; the death is the last
  event, and a genome outside the cohort keeps its fitness.
\<close>

theorem fitness_accounting:
  assumes "aligned st" and "eval_loop A rs st = Some st'"
  shows "fitness st' g = fold apply_event (events A rs st g) (fitness st g) \<and>
         count_list (events A rs st g) Survived = alive_ticks A rs st g \<and>
         count_list (events A rs st g) Passed = pass_rewards A rs st g \<and>
         count_list (events A rs st g) Died = (if g \<in> set (ge st) \<and> g \<notin> set (ge st') then 1 else 0) \<and>
         (g \<in> set (ge st) \<and> g \<notin> set (ge st') \<longrightarrow> last (events A rs st g) = Died) \<and>
         set (ge st') \<subseteq> set (ge st) \<and>
         (g \<notin> set (ge st) \<longrightarrow> events A rs st g = [] \<and> fitness st' g = fitness st g)"
proof -
  have main: "fitness st' g = fold apply_event (events A rs st g) (fitness st g) \<and>
         count_list (events A rs st g) Survived = alive_ticks A rs st g \<and>
         count_list (events A rs st g) Passed = pass_rewards A rs st g \<and>
         count_list (events A rs st g) Died = (if g \<in> set (ge st) \<and> g \<notin> set (ge st') then 1 else 0) \<and>
         (g \<in> set (ge st) \<and> g \<notin> set (ge st') \<longrightarrow> last (events A rs st g) = Died) \<and>
         set (ge st') \<subseteq> set (ge st) \<and> aligned st' \<and>
         (g \<notin> set (ge st) \<longrightarrow> events A rs st g = [])"
    using assms
  proof (induction rs arbitrary: st)
    case Nil
    then show ?case by simp
  next
    case (Cons r rs)
    show ?case
    proof (cases "birds st = []")
      case True
      then show ?thesis using Cons.prems by simp
    next
      case False
      then obtain st1 where t: "tick A r st = Some st1" and e: "eval_loop A rs st1 = Some st'"
        using Cons.prems(2) by (auto split: option.splits)
      note tf = tick_fitness [OF Cons.prems(1) t, of g]
      have al1: "aligned st1" using tf by blast
      have s1: "set (ge st1) \<subseteq> set (ge (snd (tick_to_reward A st)))"
        and s2: "set (ge (snd (tick_to_reward A st))) \<subseteq> set (ge st)"
        using tf by blast+
      note tc = tick_events_counts [OF s1 s2, of g]
      note ih = Cons.IH [OF al1 e]
      have sub: "set (ge st') \<subseteq> set (ge st1)" "set (ge st1) \<subseteq> set (ge st)"
        using ih tf by blast+
      have ev: "events A (r # rs) st g = tick_events A st st1 g @ events A rs st1 g"
        and a: "alive_ticks A (r # rs) st g =
          (if g \<in> set (ge st) then 1 else 0) + alive_ticks A rs st1 g"
        and p: "pass_rewards A (r # rs) st g =
          (if fst (tick_to_reward A st) \<and> g \<in> set (ge (snd (tick_to_reward A st)))
           then 1 else 0) + pass_rewards A rs st1 g"
        using False t by simp_all
      have f1: "fitness st1 g = fold apply_event (tick_events A st st1 g) (fitness st g)"
        using tf by blast
      have f2: "fitness st' g = fold apply_event (events A rs st1 g) (fitness st1 g)"
        using ih by blast
      have z: "g \<notin> set (ge st1) \<longrightarrow> events A rs st1 g = []"
        using ih by blast
      have c1: "fitness st' g = fold apply_event (events A (r # rs) st g) (fitness st g)"
        unfolding ev f2 f1 by simp
      have c2: "count_list (events A (r # rs) st g) Survived = alive_ticks A (r # rs) st g"
        unfolding ev a using tc(1) ih by simp
      have c3: "count_list (events A (r # rs) st g) Passed = pass_rewards A (r # rs) st g"
        unfolding ev p using tc(2) ih by simp
      have dd: "count_list (events A rs st1 g) Died =
          (if g \<in> set (ge st1) \<and> g \<notin> set (ge st') then 1 else 0)"
        using ih by blast
      have c4: "count_list (events A (r # rs) st g) Died =
          (if g \<in> set (ge st) \<and> g \<notin> set (ge st') then 1 else 0)"
        unfolding ev using tc(3) dd sub by auto
      have c5: "g \<in> set (ge st) \<and> g \<notin> set (ge st') \<longrightarrow> last (events A (r # rs) st g) = Died"
      proof (intro impI)
        assume g: "g \<in> set (ge st) \<and> g \<notin> set (ge st')"
        show "last (events A (r # rs) st g) = Died"
        proof (cases "g \<in> set (ge st1)")
          case True
          then have l: "last (events A rs st1 g) = Died"
            and "count_list (events A rs st1 g) Died = 1"
            using ih g dd by auto
          then have "events A rs st1 g \<noteq> []" by auto
          then show ?thesis unfolding ev using l by simp
        next
          case False
          then have "events A rs st1 g = []" using z by simp
          then show ?thesis unfolding ev using tc(5) g False by simp
        qed
      qed
      have c6: "g \<notin> set (ge st) \<longrightarrow> events A (r # rs) st g = []"
        unfolding ev using tc(4) z sub by auto
      show ?thesis using c1 c2 c3 c4 c5 c6 sub ih by auto
    qed
  qed
  then show ?thesis by auto
qed

lemma approach_run:
  "\<exists>st'. eval_loop example_assets [100, 100, 100, 100, 100, 100, 100, 100, 100, 100] approach = Some st' \<and>
     ge st' = [] \<and> score st' = 1 \<and> fitness st' 7 = 5"
  by (simp add: run_simps approach_def)

lemma approach_events:
  "alive_ticks example_assets [100, 100, 100, 100, 100, 100, 100, 100, 100, 100] approach 7 = 10"
  "pass_rewards example_assets [100, 100, 100, 100, 100, 100, 100, 100, 100, 100] approach 7 = 1"
  by (simp_all add: run_simps approach_def)

text \<open>
  C5, witness, the example of the specification: the bird of \<open>approach\<close> is alive at the
  start of ten ticks, passes one pipe in the ninth and hits it in the tenth. The
  events are counted as 10, 1 and 1, and in this order of events the floating-point
  result is exactly 5.
\<close>

theorem fitness_accounting_witness:
  "\<exists>st'. eval_loop example_assets [100, 100, 100, 100, 100, 100, 100, 100, 100, 100] approach = Some st' \<and>
     count_list (events example_assets [100, 100, 100, 100, 100, 100, 100, 100, 100, 100] approach 7)
       Survived = 10 \<and>
     count_list (events example_assets [100, 100, 100, 100, 100, 100, 100, 100, 100, 100] approach 7)
       Passed = 1 \<and>
     count_list (events example_assets [100, 100, 100, 100, 100, 100, 100, 100, 100, 100] approach 7)
       Died = 1 \<and>
     fold apply_event
       (events example_assets [100, 100, 100, 100, 100, 100, 100, 100, 100, 100] approach 7)
       (fitness approach 7) = 5 \<and>
     fitness st' 7 = 5"
proof -
  obtain st' where
    e: "eval_loop example_assets [100, 100, 100, 100, 100, 100, 100, 100, 100, 100] approach = Some st'"
    and g: "ge st' = []" and f: "fitness st' 7 = 5"
    using approach_run by blast
  have a: "7 \<in> set (ge approach)"
    by (simp add: approach_def)
  show ?thesis
    using fitness_accounting [OF approach_aligned e, of 7] approach_events a g e f by simp
qed

lemma start_run:
  "\<exists>st'. eval_loop example_assets [100, 100, 100] (init_state example_assets 100 [(7, \<lambda>_. 0)]) = Some st' \<and>
     ge st' = [7] \<and> fitness st' 7 = 1351079888211149 / 4503599627370496"
  by (simp add: run_simps init_state_def)

text \<open>
  C5, counterexample to the exact sum: from the start state of the program with one
  genome, after three ticks without a pass or a death the genome has been alive at the
  start of three ticks, and its fitness is the double 0.30000000000000004, not
  3 * 0.1 = 0.3.
\<close>

theorem fitness_accounting_counterexample:
  "alive_ticks example_assets [100, 100, 100] (init_state example_assets 100 [(7, \<lambda>_. 0)]) 7 = 3 \<and>
   pass_rewards example_assets [100, 100, 100] (init_state example_assets 100 [(7, \<lambda>_. 0)]) 7 = 0 \<and>
   fitness (init_state example_assets 100 [(7, \<lambda>_. 0)]) 7 = 0 \<and>
   ge (the (eval_loop example_assets [100, 100, 100]
             (init_state example_assets 100 [(7, \<lambda>_. 0)]))) = [7] \<and>
   fitness (the (eval_loop example_assets [100, 100, 100]
             (init_state example_assets 100 [(7, \<lambda>_. 0)]))) 7 =
     1351079888211149 / 4503599627370496 \<and>
   fitness (the (eval_loop example_assets [100, 100, 100]
             (init_state example_assets 100 [(7, \<lambda>_. 0)]))) 7 \<noteq>
     fitness (init_state example_assets 100 [(7, \<lambda>_. 0)]) 7 + exact_sum 3 0 False"
proof -
  obtain st' where
    e: "eval_loop example_assets [100, 100, 100] (init_state example_assets 100 [(7, \<lambda>_. 0)]) = Some st'"
    and g: "ge st' = [7]" and f: "fitness st' 7 = 1351079888211149 / 4503599627370496"
    using start_run by blast
  have c: "alive_ticks example_assets [100, 100, 100] (init_state example_assets 100 [(7, \<lambda>_. 0)]) 7 = 3"
    "pass_rewards example_assets [100, 100, 100] (init_state example_assets 100 [(7, \<lambda>_. 0)]) 7 = 0"
    by (simp_all add: run_simps init_state_def)
  have i: "fitness (init_state example_assets 100 [(7, \<lambda>_. 0)]) 7 = 0"
    by (simp add: init_state_def)
  show ?thesis
    unfolding e using c i g f by (simp add: exact_sum_def)
qed

section \<open>The states the game loop reaches\<close>

lemma init_state_aligned: "distinct (map fst genomes) \<Longrightarrow> aligned (init_state A r genomes)"
  by (simp add: aligned_def init_state_def)

lemma init_state_same_x: "\<forall>b \<in> set (birds (init_state A r genomes)). bird_x b = 230"
  by (simp add: init_state_def Bird_init_def)

lemma Bird_draw_x [simp]: "bird_x (Bird_draw b) = bird_x b"
  by (simp add: Bird_draw_def Let_def split: prod.splits)

lemma tick_same_x:
  assumes "\<forall>b \<in> set (birds st). bird_x b = bx" and "tick A r st = Some st'"
  shows "\<forall>b \<in> set (birds st'). bird_x b = bx"
proof -
  define st1 where "st1 = agents_loop (pipes st ! pipe_ind A (birds st) (pipes st)) st"
  define st2 where "st2 = snd (tick_to_reward A st)"
  define st4 where "st4 = remove_rem A (pipes st2) (reward_and_spawn A r (fst (tick_to_reward A st)) st2)"
  define st5 where "st5 = oob_scan A 0 st4"
  have st': "st' = st5\<lparr>birds := map Bird_draw (birds st5)\<rparr>"
    using assms(2)
    by (simp add: tick_def st5_def st4_def st2_def Let_def split: if_splits prod.splits)
  have 1: "\<forall>b \<in> set (birds st1). bird_x b = bx"
    unfolding st1_def using assms(1) by (rule agents_loop_same_x)
  have "birds st2 = birds (snd (snd (pipes_loop A (pipes st) False st1)))"
    unfolding st2_def tick_to_reward_unfold st1_def by simp
  then have "set (birds st2) \<subseteq> set (birds st1)"
    using pipes_loop_birds_subset [of A "pipes st" False st1] by simp
  moreover have "birds st4 = birds st2"
    by (simp add: st4_def remove_rem_def reward_and_spawn_def)
  moreover have "set (birds st5) \<subseteq> set (birds st4)"
    unfolding st5_def oob_scan_kill by (rule kill_scan_birds_subset)
  ultimately have "\<forall>b \<in> set (birds st5). bird_x b = bx"
    using 1 by auto
  then show ?thesis by (simp add: st')
qed

section \<open>The game loop raises no IndexError\<close>

lemma fold_remove1_snoc:
  "y \<notin> set rs \<Longrightarrow> fold remove1 rs (xs @ [y]) = fold remove1 rs xs @ [y]"
proof (induction rs arbitrary: xs)
  case Nil
  then show ?case by simp
next
  case (Cons r rs)
  then have "remove1 r (xs @ [y]) = remove1 r xs @ [y]"
    by (auto simp: remove1_append remove1_idem)
  then show ?case using Cons by simp
qed

lemma pipes_loop_take_birds:
  "set (birds (snd (snd (pipes_loop A ps add_pipe st)))) \<subseteq>
   set (birds (snd (snd (pipes_loop A (take k ps) add_pipe st))))"
proof (induction ps arbitrary: k add_pipe st)
  case Nil
  then show ?case by simp
next
  case (Cons p ps)
  show ?case
  proof (cases k)
    case 0
    then show ?thesis
      using pipes_loop_birds_subset [of A "p # ps" add_pipe st] by simp
  next
    case (Suc j)
    obtain p' a' st' where r: "collide_scan A 0 (Pipe_move p) add_pipe st = (p', a', st')"
      by (cases "collide_scan A 0 (Pipe_move p) add_pipe st") auto
    show ?thesis
      using Cons.IH [of a' st' j] Suc r by (auto split: prod.splits)
  qed
qed

lemma init_state_loop_inv: "loop_inv (init_state A r genomes)"
  by (simp add: loop_inv_def init_state_def Bird_init_def Pipe_init_def set_height_def
      list_all_iff)

lemma tick_loop_inv:
  assumes inv: "loop_inv st" and ne: "birds st \<noteq> []" and w: "0 \<le> PIPE_width A"
  shows "\<exists>st'. tick A r st = Some st' \<and> loop_inv st'"
proof -
  define st1 where "st1 = agents_loop (pipes st ! pipe_ind A (birds st) (pipes st)) st"
  define ps where "ps = pipes st"
  define ps' where "ps' = fst (pipes_loop A ps False st1)"
  define add_pipe where "add_pipe = fst (tick_to_reward A st)"
  define st2 where "st2 = snd (tick_to_reward A st)"
  define st3 where "st3 = reward_and_spawn A r add_pipe st2"
  define st4 where "st4 = remove_rem A (pipes st2) st3"
  define st5 where "st5 = oob_scan A 0 st4"
  define st' where "st' = st5\<lparr>birds := map Bird_draw (birds st5)\<rparr>"
  have same: "\<forall>b \<in> set (birds st). bird_x b = 230" and psne: "ps \<noteq> []"
    and lastp: "\<not> passed (last ps)" "230 \<le> pipe_x (last ps)"
    using inv ne by (simp_all add: loop_inv_def list_all_iff ps_def)
  have t: "tick A r st = Some st'"
    using psne
    by (simp add: tick_def st'_def st5_def st4_def st3_def st2_def add_pipe_def Let_def ps_def
        split: prod.splits)
  have ttr: "tick_to_reward A st = (add_pipe, st2)"
    by (simp add: add_pipe_def st2_def)
  note pts = tick_to_reward_flags [OF ttr same]
  have p2: "pipes st2 = ps'"
    unfolding st2_def tick_to_reward_unfold ps'_def st1_def ps_def by simp
  have len: "length ps' = length ps" using pts unfolding p2 ps_def by blast
  define k where "k = length ps - 1"
  have ne': "ps' \<noteq> []" using psne len by auto
  have k: "k < length ps" "last ps = ps ! k" "last ps' = ps' ! k" "ps' \<noteq> []"
    using psne ne' len last_conv_nth [OF psne] last_conv_nth [OF ne'] by (simp_all add: k_def)
  have xk: "pipe_x (ps' ! k) = pipe_x (ps ! k) - VEL"
    and turn: "(\<not> passed (ps ! k) \<and> passed (ps' ! k)) =
       (\<not> passed (ps ! k) \<and> pipe_x (ps ! k) - VEL < 230 \<and> cohort_at A k st \<noteq> [])"
    and addeq: "add_pipe = (\<exists>k<length ps. \<not> passed (ps ! k) \<and> passed (ps' ! k))"
    using pts k(1) unfolding p2 ps_def by blast+
  have x225: "225 \<le> pipe_x (ps' ! k)"
    using xk lastp(2) k(2) by (simp add: VEL_def)
  have p3: "pipes st3 = ps' @ (if add_pipe then [Pipe_init A 600 r] else [])"
    by (simp add: st3_def reward_and_spawn_pipes p2)
  have p4: "pipes st4 \<noteq> [] \<and>
      last (pipes st4) = (if add_pipe then Pipe_init A 600 r else ps' ! k)"
  proof (cases add_pipe)
    case True
    have "Pipe_init A 600 r \<notin> set (filter (\<lambda>p. pipe_x p + PIPE_width A < 0) ps')"
      using w by (simp add: Pipe_init_def set_height_def)
    then show ?thesis
      using True by (simp add: st4_def remove_rem_def p3 p2 fold_remove1_snoc)
  next
    case False
    have sn: "ps' = butlast ps' @ [ps' ! k]"
      using k(3,4) by (metis append_butlast_last_id)
    have "ps' ! k \<notin> set (filter (\<lambda>p. pipe_x p + PIPE_width A < 0) ps')"
      using w x225 by simp
    then have "fold remove1 (filter (\<lambda>p. pipe_x p + PIPE_width A < 0) ps') (butlast ps' @ [ps' ! k]) =
        fold remove1 (filter (\<lambda>p. pipe_x p + PIPE_width A < 0) ps') (butlast ps') @ [ps' ! k]"
      by (rule fold_remove1_snoc)
    then show ?thesis
      using False sn by (simp add: st4_def remove_rem_def p3 p2)
  qed
  have p': "pipes st' = pipes st4"
    unfolding st'_def st5_def oob_scan_kill using kill_scan_frame [of "out_of_bounds A" 0 st4]
    by simp
  have x': "list_all (\<lambda>b. bird_x b = 230) (birds st')"
    using tick_same_x [OF same t] by (simp add: list_all_iff)
  have b': "set (birds st5) \<subseteq> set (birds st2)"
  proof -
    have "birds st4 = birds st2"
      by (simp add: st4_def st3_def remove_rem_def reward_and_spawn_def)
    then show ?thesis
      unfolding st5_def oob_scan_kill using kill_scan_birds_subset [of "out_of_bounds A" 0 st4]
      by simp
  qed
  have last': "\<not> passed (last (pipes st')) \<and> 230 \<le> pipe_x (last (pipes st'))"
    if alive: "birds st' \<noteq> []"
  proof (cases add_pipe)
    case True
    then show ?thesis
      unfolding p' using p4 by (simp add: Pipe_init_def set_height_def)
  next
    case False
    have "birds st5 \<noteq> []" using alive by (simp add: st'_def)
    then have "birds st2 \<noteq> []" using b' by auto
    moreover have "birds st2 = birds (snd (snd (pipes_loop A ps False st1)))"
      unfolding st2_def tick_to_reward_unfold st1_def ps_def by simp
    ultimately have "cohort_at A k st \<noteq> []"
      using pipes_loop_take_birds [of A ps False st1 k]
      by (auto simp: cohort_at_def st1_def ps_def)
    moreover have np: "\<not> passed (ps' ! k)"
      using False addeq k(1) lastp(1) k(2) by auto
    ultimately have "\<not> pipe_x (ps ! k) - VEL < 230"
      using turn lastp(1) k(2) by auto
    then show ?thesis
      unfolding p' using p4 False np xk by simp
  qed
  have "loop_inv st'"
    unfolding loop_inv_def using x' p4 last' p' by auto
  then show ?thesis using t by blast
qed

lemma eval_loop_total:
  assumes "loop_inv st" and "0 \<le> PIPE_width A"
  shows "\<exists>st'. eval_loop A rs st = Some st'"
  using assms(1)
proof (induction rs arbitrary: st)
  case Nil
  then show ?case by simp
next
  case (Cons r rs)
  show ?case
  proof (cases "birds st = []")
    case True
    then show ?thesis by simp
  next
    case False
    obtain st1 where "tick A r st = Some st1" "loop_inv st1"
      using tick_loop_inv [OF Cons.prems False assms(2)] by blast
    then show ?thesis using Cons.IH [of st1] False by simp
  qed
qed

end
